theory Spec2Isabelle
  imports Main "HOL-Library.Char_ord" "HOL-Library.List_Lexorder"
begin

section \<open>Ensembles of [incr Tcl]: the part store of \<^verbatim>\<open>generic/itclEnsemble.c\<close>\<close>

text \<open>
  The development follows \<^verbatim>\<open>itclEnsemble.c\<close> function by function. An ensemble keeps
  its parts in an array ordered by name; the array's used prefix
  \<^verbatim>\<open>parts[0 .. numParts-1]\<close> is a list here, and \<^verbatim>\<open>numParts\<close> is its length.
  Pointers that may be \<^verbatim>\<open>NULL\<close> are options. Tcl itself is not part of the file: each
  Tcl call the code makes is a field of the record \<open>Tcl\<close> below, a parameter of the
  functions that use it, so that every theorem holds for any behaviour of the host.
\<close>

subsection \<open>C strings and their comparison\<close>

text \<open>
  A name is a C string: the list holds its bytes and the end of the list is the
  terminating NUL. \<^verbatim>\<open>strcmp\<close> and \<^verbatim>\<open>strncmp\<close> compare bytes as
  \<^verbatim>\<open>unsigned char\<close>; the code only looks at the sign of their result, which is what
  the model returns.
\<close>

fun strcmp :: "string \<Rightarrow> string \<Rightarrow> int" where
  "strcmp [] [] = 0"
| "strcmp [] (d # ds) = -1"
| "strcmp (c # cs) [] = 1"
| "strcmp (c # cs) (d # ds) =
     (if c = d then strcmp cs ds
      else if (of_char c :: nat) < of_char d then -1 else 1)"

fun strncmp :: "string \<Rightarrow> string \<Rightarrow> nat \<Rightarrow> int" where
  "strncmp s t 0 = 0"
| "strncmp [] [] (Suc n) = 0"
| "strncmp [] (d # ds) (Suc n) = -1"
| "strncmp (c # cs) [] (Suc n) = 1"
| "strncmp (c # cs) (d # ds) (Suc n) =
     (if c = d then strncmp cs ds n
      else if (of_char c :: nat) < of_char d then -1 else 1)"

text \<open>
  The binary searches first compare the leading bytes \<^verbatim>\<open>*partName\<close> and
  \<^verbatim>\<open>*name\<close> as plain \<^verbatim>\<open>char\<close>. Whether plain \<^verbatim>\<open>char\<close> is signed is the
  compiler's choice, so it is the parameter \<open>sg\<close> of everything that compares:
  \<open>sg = True\<close> reads a byte above 127 as a negative number.
\<close>

definition char_val :: "bool \<Rightarrow> char \<Rightarrow> int" where
  "char_val sg c =
     (if sg \<and> 128 \<le> (of_char c :: nat) then int (of_char c) - 256 else int (of_char c))"

definition deref :: "bool \<Rightarrow> string \<Rightarrow> int" where
  "deref sg s = (case s of [] \<Rightarrow> 0 | c # _ \<Rightarrow> char_val sg c)"

text \<open>
  The order the two searches induce on names: leading bytes as plain \<^verbatim>\<open>char\<close>, then
  \<^verbatim>\<open>strcmp\<close>. With an unsigned \<^verbatim>\<open>char\<close> it is the lexicographic order of the bytes.
\<close>

definition name_less :: "bool \<Rightarrow> string \<Rightarrow> string \<Rightarrow> bool" where
  "name_less sg a b = (deref sg a < deref sg b \<or> (deref sg a = deref sg b \<and> a < b))"

subsection \<open>The data of an ensemble\<close>

type_synonym cmd = nat
type_synonym ens_ptr = nat

record EnsemblePart =
  name :: string
  minChars :: int
  cmdPtr :: "cmd option"
  usage :: "string option"
  objProc :: "nat option"
  clientData :: "nat option"
  deleteProc :: "nat option"
  flags :: nat

text \<open>
  \<^verbatim>\<open>Ensemble.parent\<close> points to the part of the enclosing ensemble that stands for
  this one, and that part points back to its own ensemble. The chain of ancestors is a
  value here: the parent part's name, and the command and the parent of the ensemble
  holding it. None of the three changes once \<^verbatim>\<open>CreateEnsemble\<close> has set them.
\<close>

datatype ParentPart =
  ParentPart (pp_name: string) (pp_cmd: "cmd option") (pp_parent: "ParentPart option")

record Ensemble =
  parts :: "EnsemblePart list"
  maxParts :: nat
  ensembleId :: int
  cmd :: "cmd option"
  parent :: "ParentPart option"
  nsPtr :: "string option"

definition numParts :: "Ensemble \<Rightarrow> int" where
  "numParts ens = int (length (parts ens))"

definition ITCL_ENSEMBLE_CUSTOM :: nat where "ITCL_ENSEMBLE_CUSTOM = 1"
definition ITCL_ENSEMBLE_ENSEMBLE :: nat where "ITCL_ENSEMBLE_ENSEMBLE = 2"

subsection \<open>The interpreter and the host\<close>

text \<open>
  A Tcl value is a string or a list of strings; \<^verbatim>\<open>Tcl_GetString\<close> of a list is
  what \<^verbatim>\<open>Tcl_Merge\<close> makes of it.
\<close>

datatype Tcl_Obj = StringObj string | ListObj "string list"

record CmdInfo =
  objClientData :: ens_ptr
  ci_deleteProc :: "nat option"
  ci_deleteData :: "nat option"

text \<open>
  What the file reads and writes through \<^verbatim>\<open>Tcl_Interp *interp\<close>: the result and
  the error trace of the interpreter, the \<^verbatim>\<open>Ensemble\<close> records in memory (a record
  stays readable after \<^verbatim>\<open>ckfree\<close>; \<open>allocated\<close> tells which ones are live), the
  tables and the counter of \<^verbatim>\<open>infoPtr->ensembleInfo\<close>, and the parser registered as
  \<^verbatim>\<open>itcl_ensembleParser\<close> with its field \<^verbatim>\<open>ensData\<close> (\<open>ensInfo = None\<close> until
  \<^verbatim>\<open>GetEnsembleParser\<close> has created it). \<open>host\<close> is the state of Tcl itself.
\<close>

record 'h interp =
  host :: 'h
  result :: Tcl_Obj
  errorInfo :: string
  memory :: "ens_ptr \<Rightarrow> Ensemble"
  allocated :: "ens_ptr set"
  next_alloc :: ens_ptr
  ensembles :: "cmd option \<rightharpoonup> ens_ptr"
  subEnsembles :: "string set"
  numEnsembles :: int
  ensembleNsPtr :: "string option"
  ensInfo :: "ens_ptr option option"

text \<open>
  The calls into Tcl, over a host state \<open>'h\<close> the model knows nothing about, and the
  macro \<^verbatim>\<open>ITCL_COMMANDS_NAMESPACE\<close> of \<^verbatim>\<open>itclInt.h\<close>. A call whose failure the
  code does not look at returns the new host state only. \<^verbatim>\<open>Tcl_EvalObj\<close> runs a
  script, which may call back into this file: it is any function of the whole state.
\<close>

record 'h Tcl =
  ITCL_COMMANDS_NAMESPACE :: string
  Tcl_SplitList :: "string \<Rightarrow> string + string list"
  Tcl_Merge :: "string list \<Rightarrow> string"
  Tcl_FindEnsemble :: "'h \<Rightarrow> string \<Rightarrow> cmd option"
  Tcl_FindCommand :: "'h \<Rightarrow> string \<Rightarrow> cmd option"
  Tcl_GetCommandFromObj :: "'h \<Rightarrow> string \<Rightarrow> cmd option"
  Tcl_IsEnsemble :: "'h \<Rightarrow> cmd \<Rightarrow> bool"
  Tcl_GetCommandInfoFromToken :: "'h \<Rightarrow> cmd option \<Rightarrow> CmdInfo option"
  Tcl_GetCommandName :: "'h \<Rightarrow> cmd option \<Rightarrow> string"
  Tcl_DStringAppendElement :: "string \<Rightarrow> string \<Rightarrow> string"
  Tcl_CreateNamespace :: "'h \<Rightarrow> string \<Rightarrow> string option \<times> 'h"
  Tcl_CreateEnsemble :: "'h \<Rightarrow> string \<Rightarrow> cmd option \<times> 'h"
  Tcl_CreateHashEntry :: "'h \<Rightarrow> cmd option \<Rightarrow> bool"
  Tcl_SetEnsembleUnknownHandler :: "'h \<Rightarrow> cmd option \<Rightarrow> string \<Rightarrow> bool \<times> 'h"
  Tcl_DictObjPut :: "'h \<Rightarrow> cmd option \<Rightarrow> string \<Rightarrow> string \<Rightarrow> 'h"
  Tcl_CreateObjCommand :: "'h \<Rightarrow> string \<Rightarrow> cmd option \<times> 'h"
  Tcl_SetEnsembleMappingDict :: "'h \<Rightarrow> cmd option \<Rightarrow> 'h"
  Tcl_EvalObj :: "'h interp \<Rightarrow> string \<Rightarrow> int \<times> 'h interp"
  errorLine :: "'h \<Rightarrow> int"
  call_deleteProc :: "'h \<Rightarrow> nat \<Rightarrow> nat \<Rightarrow> 'h"
  ckfree_cmd :: "'h \<Rightarrow> cmd option \<Rightarrow> 'h"

definition TCL_OK :: int where "TCL_OK = 0"
definition TCL_ERROR :: int where "TCL_ERROR = 1"

definition Tcl_GetString :: "'h Tcl \<Rightarrow> Tcl_Obj \<Rightarrow> string" where
  "Tcl_GetString T obj = (case obj of StringObj s \<Rightarrow> s | ListObj xs \<Rightarrow> Tcl_Merge T xs)"

text \<open>\<^verbatim>\<open>Tcl_AppendStringsToObj(Tcl_GetObjResult(interp), ...)\<close> and \<^verbatim>\<open>Tcl_SetObjResult\<close>.\<close>

definition append_result :: "'h Tcl \<Rightarrow> 'h interp \<Rightarrow> string \<Rightarrow> 'h interp" where
  "append_result T st msg = st\<lparr>result := StringObj (Tcl_GetString T (result st) @ msg)\<rparr>"

definition set_result :: "'h interp \<Rightarrow> Tcl_Obj \<Rightarrow> 'h interp" where
  "set_result st obj = st\<lparr>result := obj\<rparr>"

text \<open>
  What ends a call without a return value: \<^verbatim>\<open>Tcl_Panic\<close>, a read through a
  \<^verbatim>\<open>NULL\<close> pointer or past the arguments, and a loop that never ends.
\<close>

datatype abort = Panic string | BadRead | NoReturn

subsection \<open>Searching a part by its exact name: \<^verbatim>\<open>FindEnsemblePartIndex\<close>\<close>

text \<open>
  The loop of the binary search, from \<^verbatim>\<open>first\<close> and \<^verbatim>\<open>last\<close>. It returns
  \<open>(True, pos)\<close> when it leaves by \<^verbatim>\<open>break\<close> and \<open>(False, first)\<close> when the
  interval is empty.
\<close>

function FindEnsemblePartIndex_loop ::
  "bool \<Rightarrow> EnsemblePart list \<Rightarrow> string \<Rightarrow> int \<Rightarrow> int \<Rightarrow> bool \<times> int" where
  "FindEnsemblePartIndex_loop sg ps partName first last' =
     (if last' \<ge> first then
        (let pos = (first + last') div 2;
             nm = name (ps ! nat pos)
         in if deref sg partName = deref sg nm \<and> strcmp partName nm = 0 then (True, pos)
            else
              (let cmp = (if deref sg partName = deref sg nm then strcmp partName nm
                          else if deref sg partName < deref sg nm then -1 else 1)
               in if cmp > 0 then FindEnsemblePartIndex_loop sg ps partName (pos + 1) last'
                  else FindEnsemblePartIndex_loop sg ps partName first (pos - 1)))
      else (False, first))"
  by pat_completeness auto
termination
  by (relation "measure (\<lambda>(sg, ps, partName, first, last'). nat (last' - first + 1))") auto

declare FindEnsemblePartIndex_loop.simps [simp del]

definition FindEnsemblePartIndex :: "bool \<Rightarrow> Ensemble \<Rightarrow> string \<Rightarrow> bool \<times> int" where
  "FindEnsemblePartIndex sg ensData partName =
     FindEnsemblePartIndex_loop sg (parts ensData) partName 0 (numParts ensData - 1)"

subsection \<open>Abbreviation widths: \<^verbatim>\<open>ComputeMinChars\<close>\<close>

text \<open>
  The \<^verbatim>\<open>for\<close> loop that walks two names while their bytes agree: it starts at 1 and
  returns the final value of \<^verbatim>\<open>min\<close>.
\<close>

fun common_run :: "string \<Rightarrow> string \<Rightarrow> int" where
  "common_run (c # cs) (d # ds) = (if c = d then 1 + common_run cs ds else 1)"
| "common_run p q = 1"

definition ComputeMinChars :: "Ensemble \<Rightarrow> int \<Rightarrow> Ensemble" where
  "ComputeMinChars ensData pos =
     (if pos < 0 \<or> pos \<ge> numParts ensData then ensData
      else
        (let ps = parts ensData;
             p = ps ! nat pos;
             m0 = 1;
             m1 = (if pos - 1 \<ge> 0
                   then (let mn = common_run (name p) (name (ps ! nat (pos - 1)))
                         in if mn > m0 then mn else m0)
                   else m0);
             m2 = (if pos + 1 < numParts ensData
                   then (let mn = common_run (name p) (name (ps ! nat (pos + 1)))
                         in if mn > m1 then mn else m1)
                   else m1);
             mx = int (length (name p));
             m3 = (if m2 > mx then mx else m2)
         in ensData\<lparr>parts := ps[nat pos := p\<lparr>minChars := m3\<rparr>]\<rparr>))"

subsection \<open>Inserting and removing a part\<close>

definition new_part :: "string \<Rightarrow> EnsemblePart" where
  "new_part partName =
     \<lparr>name = partName, minChars = 0, cmdPtr = None, usage = None, objProc = None,
      clientData = None, deleteProc = None, flags = 0\<rparr>"

text \<open>
  \<^verbatim>\<open>CreateEnsemblePart\<close> returns \<^verbatim>\<open>TCL_ERROR\<close> with a message appended to the
  interpreter's result (\<open>Inl\<close> the message), or \<^verbatim>\<open>TCL_OK\<close> with the ensemble updated
  and the position of the new part, which stands for the pointer it returns.
\<close>

definition CreateEnsemblePart ::
  "bool \<Rightarrow> Ensemble \<Rightarrow> string \<Rightarrow> string + Ensemble \<times> nat" where
  "CreateEnsemblePart sg ensData partName =
     (case FindEnsemblePartIndex sg ensData partName of
        (True, pos) \<Rightarrow> Inl (''part \"'' @ partName @ ''\" already exists in ensemble'')
      | (False, pos) \<Rightarrow>
          (let e1 = (if numParts ensData \<ge> int (maxParts ensData)
                     then ensData\<lparr>maxParts := 2 * maxParts ensData\<rparr> else ensData);
               e2 = e1\<lparr>parts := take (nat pos) (parts e1) @ [new_part partName]
                                  @ drop (nat pos) (parts e1)\<rparr>;
               e3 = ComputeMinChars e2 pos;
               e4 = ComputeMinChars e3 (pos - 1);
               e5 = ComputeMinChars e4 (pos + 1)
           in Inr (e5, nat pos)))"

text \<open>
  \<^verbatim>\<open>DeleteEnsemblePart\<close> works on the ensemble a part belongs to
  (\<^verbatim>\<open>ensPart->ensemble\<close>), here the ensemble passed along with the part. It gives up
  at once when Tcl has no information for the part's command.
\<close>

definition DeleteEnsemblePart ::
  "bool \<Rightarrow> 'h Tcl \<Rightarrow> 'h \<Rightarrow> Ensemble \<Rightarrow> EnsemblePart \<Rightarrow> 'h \<times> Ensemble" where
  "DeleteEnsemblePart sg T hs ensData ensPart =
     (case Tcl_GetCommandInfoFromToken T hs (cmdPtr ensPart) of
        None \<Rightarrow> (hs, ensData)
      | Some cmdInfo \<Rightarrow>
          (let hs1 = (case (ci_deleteData cmdInfo, ci_deleteProc cmdInfo) of
                        (Some d, Some f) \<Rightarrow> call_deleteProc T hs f d
                      | _ \<Rightarrow> hs);
               hs2 = ckfree_cmd T hs1 (cmdPtr ensPart)
           in case FindEnsemblePartIndex sg ensData (name ensPart) of
                (True, pos) \<Rightarrow>
                  (hs2, ensData\<lparr>parts := take (nat pos) (parts ensData)
                                         @ drop (nat pos + 1) (parts ensData)\<rparr>)
              | (False, pos) \<Rightarrow> (hs2, ensData)))"

subsection \<open>Usage messages: \<^verbatim>\<open>GetEnsemblePartUsage\<close> and \<^verbatim>\<open>GetEnsembleUsage\<close>\<close>

text \<open>
  The trail of a part: the names of the parent parts above its ensemble, outermost
  first (\<^verbatim>\<open>Itcl_InsertList\<close> puts each one in front), and the command of the
  top-level ensemble the second loop climbs to.
\<close>

fun trail_names :: "ParentPart \<Rightarrow> string list" where
  "trail_names (ParentPart n c par) =
     (case par of None \<Rightarrow> [] | Some q \<Rightarrow> trail_names q) @ [n]"

fun toplevel_cmd_of :: "ParentPart \<Rightarrow> cmd option" where
  "toplevel_cmd_of (ParentPart n c par) =
     (case par of None \<Rightarrow> c | Some q \<Rightarrow> toplevel_cmd_of q)"

definition GetEnsemblePartUsage ::
  "'h Tcl \<Rightarrow> 'h \<Rightarrow> Ensemble \<Rightarrow> EnsemblePart \<Rightarrow> string \<Rightarrow> string" where
  "GetEnsemblePartUsage T hs ensData ensPart objPtr =
     (let trail = (case parent ensData of None \<Rightarrow> [] | Some pp \<Rightarrow> trail_names pp)
                  @ [name ensPart];
          cmdp = (case parent ensData of None \<Rightarrow> cmd ensData
                  | Some pp \<Rightarrow> toplevel_cmd_of pp);
          b0 = Tcl_DStringAppendElement T [] (Tcl_GetCommandName T hs cmdp);
          b1 = foldl (Tcl_DStringAppendElement T) b0 trail;
          b2 = (case usage ensPart of
                  Some u \<Rightarrow>
                    (if u \<noteq> [] then b1 @ '' '' @ u
                     else (case cmdPtr ensPart of
                             Some c \<Rightarrow> (if Tcl_IsEnsemble T hs c
                                        then b1 @ '' option ?arg arg ...?'' else b1)
                           | None \<Rightarrow> b1))
                | None \<Rightarrow>
                    (case cmdPtr ensPart of
                       Some c \<Rightarrow> (if Tcl_IsEnsemble T hs c
                                  then b1 @ '' option ?arg arg ...?'' else b1)
                     | None \<Rightarrow> b1))
      in objPtr @ b2)"

text \<open>
  The loop of \<^verbatim>\<open>GetEnsembleUsage\<close> over the parts still to visit, with its three
  variables: the object written to, \<^verbatim>\<open>spaces\<close> and \<^verbatim>\<open>isOpenEnded\<close>.
\<close>

definition starts_with_at :: "string \<Rightarrow> bool" where
  "starts_with_at s = (case s of [] \<Rightarrow> False | c # _ \<Rightarrow> c = CHR ''@'')"

fun GetEnsembleUsage_loop ::
  "'h Tcl \<Rightarrow> 'h \<Rightarrow> Ensemble \<Rightarrow> EnsemblePart list \<Rightarrow> string \<Rightarrow> string \<Rightarrow> bool
     \<Rightarrow> string \<times> bool" where
  "GetEnsembleUsage_loop T hs ensData [] objPtr spaces isOpenEnded = (objPtr, isOpenEnded)"
| "GetEnsembleUsage_loop T hs ensData (ensPart # rest) objPtr spaces isOpenEnded =
     (if starts_with_at (name ensPart) \<and> strcmp (name ensPart) ''@error'' = 0
      then GetEnsembleUsage_loop T hs ensData rest objPtr spaces True
      else if starts_with_at (name ensPart)
                \<and> strcmp (name ensPart) ''@itcl-builtin_info'' = 0
      then GetEnsembleUsage_loop T hs ensData rest objPtr spaces isOpenEnded
      else GetEnsembleUsage_loop T hs ensData rest
             (GetEnsemblePartUsage T hs ensData ensPart (objPtr @ spaces))
             [CHR 0x0A, CHR '' '', CHR '' ''] isOpenEnded)"

definition GetEnsembleUsage :: "'h Tcl \<Rightarrow> 'h \<Rightarrow> Ensemble \<Rightarrow> string \<Rightarrow> string" where
  "GetEnsembleUsage T hs ensData objPtr =
     (case GetEnsembleUsage_loop T hs ensData (parts ensData) objPtr ''  '' False of
        (obj, isOpenEnded) \<Rightarrow>
          (if isOpenEnded
           then obj @ [CHR 0x0A] @ ''...and others described on the man page''
           else obj))"

subsection \<open>Searching a part by an abbreviation: \<^verbatim>\<open>FindEnsemblePart\<close>\<close>

text \<open>
  The binary search compares only \<^verbatim>\<open>nlen = strlen(partName)\<close> bytes. The loop
  returns the position it leaves with by \<^verbatim>\<open>break\<close>, or nothing when the interval
  is empty (\<^verbatim>\<open>last < first\<close>).
\<close>

function FindEnsemblePart_loop ::
  "bool \<Rightarrow> EnsemblePart list \<Rightarrow> string \<Rightarrow> int \<Rightarrow> int \<Rightarrow> int option" where
  "FindEnsemblePart_loop sg ps partName first last' =
     (if last' \<ge> first then
        (let pos = (first + last') div 2;
             nm = name (ps ! nat pos);
             nlen = length partName
         in if deref sg partName = deref sg nm \<and> strncmp partName nm nlen = 0 then Some pos
            else
              (let cmp = (if deref sg partName = deref sg nm then strncmp partName nm nlen
                          else if deref sg partName < deref sg nm then -1 else 1)
               in if cmp > 0 then FindEnsemblePart_loop sg ps partName (pos + 1) last'
                  else FindEnsemblePart_loop sg ps partName first (pos - 1)))
      else None)"
  by pat_completeness auto
termination
  by (relation "measure (\<lambda>(sg, ps, partName, first, last'). nat (last' - first + 1))") auto

declare FindEnsemblePart_loop.simps [simp del]

text \<open>
  The walk back to the top-most part that still matches: \<^verbatim>\<open>while (pos > 0)\<close>,
  stepping down and stepping up again at the first part that does not match.
\<close>

fun top_most_match :: "EnsemblePart list \<Rightarrow> string \<Rightarrow> nat \<Rightarrow> nat" where
  "top_most_match ps partName 0 = 0"
| "top_most_match ps partName (Suc pos) =
     (if strncmp partName (name (ps ! pos)) (length partName) \<noteq> 0 then Suc pos
      else top_most_match ps partName pos)"

text \<open>
  The parts listed in the message for an ambiguous abbreviation: from \<^verbatim>\<open>pos\<close> on,
  up to the first part that does not match.
\<close>

definition ambiguous_candidates :: "EnsemblePart list \<Rightarrow> string \<Rightarrow> nat \<Rightarrow> EnsemblePart list" where
  "ambiguous_candidates ps partName pos =
     takeWhile (\<lambda>p. strncmp partName (name p) (length partName) = 0) (drop pos ps)"

definition ambiguous_message ::
  "'h Tcl \<Rightarrow> 'h \<Rightarrow> Ensemble \<Rightarrow> string \<Rightarrow> EnsemblePart list \<Rightarrow> string" where
  "ambiguous_message T hs ensData partName cands =
     foldl (\<lambda>resultPtr p.
              GetEnsemblePartUsage T hs ensData p (resultPtr @ [CHR 0x0A, CHR '' '', CHR '' '']))
       (''ambiguous option \"'' @ partName @ ''\": should be one of...'') cands"

text \<open>
  \<^verbatim>\<open>FindEnsemblePart\<close> returns \<^verbatim>\<open>TCL_ERROR\<close> with the interpreter's result set to
  a message (\<open>Inl\<close>), or \<^verbatim>\<open>TCL_OK\<close> with the part found, if any (\<open>Inr\<close>).
\<close>

definition FindEnsemblePart ::
  "bool \<Rightarrow> 'h Tcl \<Rightarrow> 'h \<Rightarrow> Ensemble \<Rightarrow> string \<Rightarrow> string + EnsemblePart option" where
  "FindEnsemblePart sg T hs ensData partName =
     (let ps = parts ensData; nlen = int (length partName)
      in case FindEnsemblePart_loop sg ps partName 0 (numParts ensData - 1) of
           None \<Rightarrow> Inr None
         | Some pos0 \<Rightarrow>
             (let pos = (if nlen < minChars (ps ! nat pos0)
                         then top_most_match ps partName (nat pos0) else nat pos0)
              in if nlen < minChars (ps ! pos)
                 then Inl (ambiguous_message T hs ensData partName
                             (ambiguous_candidates ps partName pos))
                 else Inr (Some (ps ! pos))))"

subsection \<open>Deleting an ensemble: \<^verbatim>\<open>DeleteEnsemble\<close>\<close>

text \<open>
  The loop deletes the first part until no part is left. Nothing in the loop itself
  makes the number of parts go down, so it is a partial function: \<open>None\<close> is the loop
  that never ends.
\<close>

partial_function (option) DeleteEnsemble_loop ::
  "bool \<Rightarrow> 'h Tcl \<Rightarrow> 'h \<times> Ensemble \<Rightarrow> ('h \<times> Ensemble) option" where
  "DeleteEnsemble_loop sg T s =
     (if numParts (snd s) > 0
      then DeleteEnsemble_loop sg T
             (DeleteEnsemblePart sg T (fst s) (snd s) (parts (snd s) ! 0))
      else Some s)"

declare DeleteEnsemble_loop.simps [code]

definition DeleteEnsemble ::
  "bool \<Rightarrow> 'h Tcl \<Rightarrow> 'h interp \<Rightarrow> ens_ptr \<Rightarrow> 'h interp option" where
  "DeleteEnsemble sg T st ensData =
     (case DeleteEnsemble_loop sg T (host st, memory st ensData) of
        None \<Rightarrow> None
      | Some (hs, e) \<Rightarrow>
          Some (st\<lparr>host := hs, memory := (memory st)(ensData := e),
                   allocated := allocated st - {ensData}\<rparr>))"

subsection \<open>Creating an ensemble: \<^verbatim>\<open>CreateEnsemble\<close>\<close>

text \<open>\<^verbatim>\<open>sprintf(buf, "%d", n)\<close>.\<close>

function decimal :: "nat \<Rightarrow> string" where
  "decimal n = (if n < 10 then [char_of (48 + n)]
                else decimal (n div 10) @ [char_of (48 + n mod 10)])"
  by pat_completeness auto
termination
  by (relation "measure id") auto

declare decimal.simps [simp del]

definition sprintf_d :: "int \<Rightarrow> string" where
  "sprintf_d n = (if n < 0 then ''-'' @ decimal (nat (- n)) else decimal (nat n))"

text \<open>
  The record \<^verbatim>\<open>CreateEnsemble\<close> sets up after \<^verbatim>\<open>ckalloc\<close> and \<^verbatim>\<open>memset\<close>:
  no part, room for ten, and the identifier it is given.
\<close>

definition new_Ensemble :: "int \<Rightarrow> Ensemble" where
  "new_Ensemble n =
     \<lparr>parts = [], maxParts = 10, ensembleId = n, cmd = None, parent = None, nsPtr = None\<rparr>"

definition CreateEnsemble ::
  "bool \<Rightarrow> 'h Tcl \<Rightarrow> 'h interp \<Rightarrow> ens_ptr option \<Rightarrow> string \<Rightarrow> abort + int \<times> 'h interp" where
  "CreateEnsemble sg T st parentEnsData ensName =
     (let st1 = st\<lparr>numEnsembles := numEnsembles st + 1\<rparr>;
          ensData = next_alloc st1;
          st2 = st1\<lparr>next_alloc := Suc ensData, allocated := insert ensData (allocated st1)\<rparr>;
          rec0 = new_Ensemble (numEnsembles st2);
          buffer = ITCL_COMMANDS_NAMESPACE T @ ''::ensembles::'' @ sprintf_d (ensembleId rec0);
          (ns, hs1) = Tcl_CreateNamespace T (host st2) buffer;
          rec1 = rec0\<lparr>nsPtr := ns\<rparr>;
          st3 = st2\<lparr>host := hs1, memory := (memory st2)(ensData := rec1)\<rparr>;
          unk = ITCL_COMMANDS_NAMESPACE T @ ''::ensembles::unknown''
      in case parentEnsData of
           None \<Rightarrow>
             (let (c, hs2) = Tcl_CreateEnsemble T (host st3) ensName;
                  st4 = st3\<lparr>host := hs2, memory := (memory st3)(ensData := rec1\<lparr>cmd := c\<rparr>)\<rparr>
              in if \<not> Tcl_CreateHashEntry T (host st4) c then Inr (TCL_ERROR, st4)
                 else
                   (let st5 = st4\<lparr>ensembles := (ensembles st4)(c \<mapsto> ensData)\<rparr>;
                        (ok, hs3) = Tcl_SetEnsembleUnknownHandler T (host st5) c unk
                    in if \<not> ok then Inr (TCL_ERROR, st5\<lparr>host := hs3\<rparr>)
                       else Inr (TCL_OK, st5\<lparr>host := hs3\<rparr>)))
         | Some parentPtr \<Rightarrow>
             (case CreateEnsemblePart sg (memory st3 parentPtr) ensName of
                Inl msg \<Rightarrow>
                  (case DeleteEnsemble sg T (append_result T st3 msg) ensData of
                     None \<Rightarrow> Inl NoReturn
                   | Some st4 \<Rightarrow> Inr (TCL_ERROR, st4))
              | Inr (parentRec, pos) \<Rightarrow>
                  (case ensembleNsPtr st3 of
                     None \<Rightarrow> Inl BadRead
                   | Some fullName \<Rightarrow>
                       (let buffer2 = fullName @ ''::subensembles::''
                                      @ sprintf_d (ensembleId parentRec) @ ''::'' @ ensName;
                            st4 = st3\<lparr>subEnsembles := insert buffer2 (subEnsembles st3)\<rparr>;
                            (c, hs2) = Tcl_CreateEnsemble T (host st4) buffer2;
                            parentRec1 = parentRec\<lparr>parts :=
                               (parts parentRec)[pos := (parts parentRec ! pos)\<lparr>cmdPtr := c\<rparr>]\<rparr>;
                            st5 = st4\<lparr>host := hs2,
                                      memory := (memory st4)(parentPtr := parentRec1)\<rparr>
                        in if \<not> Tcl_CreateHashEntry T (host st5) c then Inr (TCL_ERROR, st5)
                           else
                             (let st6 = st5\<lparr>ensembles := (ensembles st5)(c \<mapsto> ensData)\<rparr>;
                                  (ok, hs3) = Tcl_SetEnsembleUnknownHandler T (host st6) c unk
                              in if \<not> ok then Inr (TCL_ERROR, st6\<lparr>host := hs3\<rparr>)
                                 else
                                   (let hs4 = Tcl_DictObjPut T hs3 (cmd parentRec1) ensName buffer2;
                                        rec2 = (memory st6 ensData)
                                                 \<lparr>cmd := c,
                                                  parent := Some (ParentPart ensName
                                                     (cmd parentRec1) (parent parentRec1))\<rparr>
                                    in Inr (TCL_OK,
                                            st6\<lparr>host := hs4,
                                                memory := (memory st6)(ensData := rec2)\<rparr>)))))))"

subsection \<open>Adding a part to an ensemble: \<^verbatim>\<open>AddEnsemblePart\<close>\<close>

text \<open>
  The ensemble is given by its address. The result is the status, the new state and the
  position of the new part (\<^verbatim>\<open>*rVal\<close>, set only on \<^verbatim>\<open>TCL_OK\<close>).
\<close>

definition AddEnsemblePart ::
  "bool \<Rightarrow> 'h Tcl \<Rightarrow> 'h interp \<Rightarrow> ens_ptr \<Rightarrow> string \<Rightarrow> string option \<Rightarrow> nat option
     \<Rightarrow> nat option \<Rightarrow> nat option \<Rightarrow> nat \<Rightarrow> abort + int \<times> 'h interp \<times> nat option" where
  "AddEnsemblePart sg T st ensData partName usageInfo objProc' clientData' deleteProc' flags' =
     (case CreateEnsemblePart sg (memory st ensData) partName of
        Inl msg \<Rightarrow> Inr (TCL_ERROR, append_result T st msg, None)
      | Inr (e1, pos) \<Rightarrow>
          (let ensPart = (parts e1 ! pos)
                 \<lparr>usage := (case usageInfo of None \<Rightarrow> usage (parts e1 ! pos) | Some u \<Rightarrow> Some u),
                  objProc := objProc', clientData := clientData',
                  deleteProc := deleteProc', flags := flags'\<rparr>;
               e2 = e1\<lparr>parts := (parts e1)[pos := ensPart]\<rparr>;
               st1 = st\<lparr>memory := (memory st)(ensData := e2)\<rparr>
           in case nsPtr e2 of
                None \<Rightarrow> Inl BadRead
              | Some fullName \<Rightarrow>
                  (let toObjPtr = fullName @ ''::'' @ partName;
                       hs1 = Tcl_DictObjPut T (host st1) (cmd e2) partName toObjPtr;
                       (c, hs2) = Tcl_CreateObjCommand T hs1 toObjPtr
                   in if c = None then Inr (TCL_ERROR, st1\<lparr>host := hs2\<rparr>, None)
                      else Inr (TCL_OK,
                                st1\<lparr>host := Tcl_SetEnsembleMappingDict T hs2 (cmd e2)\<rparr>,
                                Some pos))))"

subsection \<open>Following a path of names: \<^verbatim>\<open>FindEnsemble\<close>\<close>



subsection \<open>Probing lookups: \<^verbatim>\<open>Itcl_GetEnsemblePart\<close> and \<^verbatim>\<open>Itcl_GetEnsembleUsage\<close>\<close>







subsection \<open>The \<^verbatim>\<open>ensemble\<close> command: \<^verbatim>\<open>Itcl_EnsembleCmd\<close>\<close>

definition GetEnsembleParser :: "'h Tcl \<Rightarrow> 'h interp \<Rightarrow> 'h interp" where
  "GetEnsembleParser T st =
     (case ensInfo st of
        Some e \<Rightarrow> st
      | None \<Rightarrow>
          (let hs1 = snd (Tcl_CreateObjCommand T (host st) ''part'');
               hs2 = snd (Tcl_CreateObjCommand T hs1 ''option'');
               hs3 = snd (Tcl_CreateObjCommand T hs2 ''ensemble'')
           in st\<lparr>host := hs3, ensInfo := Some None\<rparr>))"

text \<open>\<^verbatim>\<open>ensInfo->ensData\<close>: the ensemble that parts are being added to.\<close>

definition current_ensData :: "'h interp \<Rightarrow> ens_ptr option" where
  "current_ensData st = (case ensInfo st of None \<Rightarrow> None | Some e \<Rightarrow> e)"

text \<open>
  The second half of \<^verbatim>\<open>Itcl_EnsembleCmd\<close>, from \<^verbatim>\<open>status = TCL_OK\<close> on: the
  ensemble found or created is plugged into the parser, the rest of the arguments is
  evaluated, and the parser gets back the ensemble it had.
\<close>

definition Itcl_EnsembleCmd_eval ::
  "'h Tcl \<Rightarrow> 'h interp \<Rightarrow> string list \<Rightarrow> ens_ptr \<Rightarrow> int \<times> 'h interp" where
  "Itcl_EnsembleCmd_eval T st objv ensData =
     (let objc = length objv;
          savedEnsData = current_ensData st;
          st1 = st\<lparr>ensInfo := Some (Some ensData)\<rparr>;
          (status, st2) =
             (if objc = 3 then Tcl_EvalObj T st1 (objv ! 2)
              else if objc > 3 then Tcl_EvalObj T st1 (Tcl_Merge T (drop 2 objv))
              else (TCL_OK, st1));
          st3 = (if status = TCL_ERROR \<and> objc = 3
                 then st2\<lparr>errorInfo := errorInfo st2
                        @ [CHR 0x0A] @ ''    (\"ensemble\" body line ''
                        @ sprintf_d (errorLine T (host st2)) @ '')''\<rparr>
                 else st2)
      in (status, st3\<lparr>ensInfo := Some savedEnsData\<rparr>))"

definition not_an_ensemble :: "'h Tcl \<Rightarrow> 'h interp \<Rightarrow> string \<Rightarrow> string \<Rightarrow> 'h interp" where
  "not_an_ensemble T st kind nm =
     append_result T st (kind @ '' \"'' @ nm @ ''\" is not an ensemble'')"

text \<open>
  \<open>clientData\<close> tells whether the command runs as the \<^verbatim>\<open>ensemble\<close> of the parser
  (its client data is the parser) or in the main interpreter (\<^verbatim>\<open>NULL\<close>).
\<close>

definition Itcl_EnsembleCmd ::
  "bool \<Rightarrow> 'h Tcl \<Rightarrow> 'h interp \<Rightarrow> bool \<Rightarrow> string list \<Rightarrow> abort + int \<times> 'h interp" where
  "Itcl_EnsembleCmd sg T st clientData' objv =
     (case objv of
        [] \<Rightarrow> Inl BadRead
      | [a0] \<Rightarrow>
          Inr (TCL_ERROR,
               append_result T st
                 (''wrong # args: should be \"'' @ a0 @ '' name ?command arg arg...?\"''))
      | a0 # ensName # args \<Rightarrow>
          (let st1 = (if clientData' then st else GetEnsembleParser T st)
           in case current_ensData st1 of
                Some ensData \<Rightarrow>
                  (let (st2, ensPart0) =
                         (case FindEnsemblePart sg T (host st1) (memory st1 ensData) ensName of
                            Inl msg \<Rightarrow> (set_result st1 (StringObj msg), None)
                          | Inr found \<Rightarrow> (st1, found));
                       lookup = (\<lambda>s ensPart.
                          case ensembles s (cmdPtr ensPart) of
                            None \<Rightarrow> Inr (TCL_ERROR, not_an_ensemble T s ''part'' ensName)
                          | Some e \<Rightarrow> Inr (Itcl_EnsembleCmd_eval T s objv e))
                   in case ensPart0 of
                        Some ensPart \<Rightarrow> lookup st2 ensPart
                      | None \<Rightarrow>
                          (case CreateEnsemble sg T st2 (Some ensData) ensName of
                             Inl a \<Rightarrow> Inl a
                           | Inr (status, st3) \<Rightarrow>
                               (if status \<noteq> TCL_OK then Inr (TCL_ERROR, st3)
                                else case FindEnsemblePart sg T (host st3)
                                            (memory st3 ensData) ensName of
                                       Inl msg \<Rightarrow>
                                         Inl (Panic ''Itcl_EnsembleCmd: can't create ensemble'')
                                     | Inr None \<Rightarrow> Inl BadRead
                                     | Inr (Some ensPart) \<Rightarrow> lookup st3 ensPart)))
              | None \<Rightarrow>
                  (let lookup = (\<lambda>s c.
                          case c of
                            None \<Rightarrow> Inr (TCL_ERROR, not_an_ensemble T s ''command'' ensName)
                          | Some c' \<Rightarrow>
                              (case ensembles s (Some c') of
                                 None \<Rightarrow>
                                   Inr (TCL_ERROR, not_an_ensemble T s ''command'' ensName)
                               | Some e \<Rightarrow> Inr (Itcl_EnsembleCmd_eval T s objv e)))
                   in case Tcl_FindCommand T (host st1) ensName of
                        Some c \<Rightarrow> lookup st1 (Some c)
                      | None \<Rightarrow>
                          (case CreateEnsemble sg T st1 None ensName of
                             Inl a \<Rightarrow> Inl a
                           | Inr (status, st2) \<Rightarrow>
                               (if status \<noteq> TCL_OK then Inr (TCL_ERROR, st2)
                                else lookup st2 (Tcl_FindCommand T (host st2) ensName))))))"

subsection \<open>Unknown parts: \<^verbatim>\<open>EnsembleUnknownCmd\<close> and \<^verbatim>\<open>Itcl_EnsembleErrorCmd\<close>\<close>

definition Itcl_EnsembleErrorCmd ::
  "'h Tcl \<Rightarrow> 'h interp \<Rightarrow> ens_ptr \<Rightarrow> string list \<Rightarrow> abort + int \<times> 'h interp" where
  "Itcl_EnsembleErrorCmd T st ensData objv =
     (case objv of
        [] \<Rightarrow> Inl BadRead
      | cmdName # rest \<Rightarrow>
          Inr (TCL_ERROR,
               set_result st
                 (StringObj
                    (GetEnsembleUsage T (host st) (memory st ensData)
                       (''bad option \"'' @ cmdName @ ''\": should be one of...''
                        @ [CHR 0x0A])))))"

definition EnsembleUnknownCmd ::
  "bool \<Rightarrow> 'h Tcl \<Rightarrow> 'h interp \<Rightarrow> string list \<Rightarrow> abort + int \<times> 'h interp" where
  "EnsembleUnknownCmd sg T st objv =
     (case objv of
        [] \<Rightarrow> Inl BadRead
      | [a0] \<Rightarrow> Inl BadRead
      | a0 # a1 # rest \<Rightarrow>
          (case Tcl_GetCommandFromObj T (host st) a1 of
             None \<Rightarrow> Inr (TCL_ERROR, st)
           | Some c \<Rightarrow>
               (case ensembles st (Some c) of
                  None \<Rightarrow> Inr (TCL_ERROR, st)
                | Some ensData \<Rightarrow>
                    (if length objv < 3
                     then Inr (TCL_ERROR,
                               set_result st
                                 (StringObj
                                    (GetEnsembleUsage T (host st) (memory st ensData)
                                       (''wrong # args: should be one of...'' @ [CHR 0x0A]))))
                     else case FindEnsemblePart sg T (host st) (memory st ensData) ''@error'' of
                            Inl msg \<Rightarrow> Inr (TCL_ERROR, set_result st (StringObj msg))
                          | Inr (Some ensPart) \<Rightarrow>
                              Inr (TCL_OK, set_result st (ListObj [a1, ''@error'', objv ! 2]))
                          | Inr None \<Rightarrow> Itcl_EnsembleErrorCmd T st ensData (drop 2 objv)))))"

section \<open>What the properties are about\<close>

text \<open>The names of a part store are in strictly increasing order.\<close>

definition names_sorted :: "bool \<Rightarrow> EnsemblePart list \<Rightarrow> bool" where
  "names_sorted sg ps = sorted_wrt (name_less sg) (map name ps)"

text \<open>
  A call on the part store of one ensemble: \<^verbatim>\<open>CreateEnsemblePart\<close> with a name, or
  \<^verbatim>\<open>DeleteEnsemblePart\<close> with a part. A call that fails leaves the ensemble as it is.
\<close>

datatype store_op = Insert string | Remove EnsemblePart

fun store_step :: "bool \<Rightarrow> 'h Tcl \<Rightarrow> 'h \<times> Ensemble \<Rightarrow> store_op \<Rightarrow> 'h \<times> Ensemble" where
  "store_step sg T (hs, ens) (Insert partName) =
     (case CreateEnsemblePart sg ens partName of
        Inl msg \<Rightarrow> (hs, ens)
      | Inr (ens', pos) \<Rightarrow> (hs, ens'))"
| "store_step sg T (hs, ens) (Remove ensPart) = DeleteEnsemblePart sg T hs ens ensPart"

text \<open>
  The ensemble after \<^verbatim>\<open>CreateEnsemblePart\<close> has been called with each of the names
  in turn (a call that fails changes nothing).
\<close>

fun inserted :: "bool \<Rightarrow> Ensemble \<Rightarrow> string list \<Rightarrow> Ensemble" where
  "inserted sg ens [] = ens"
| "inserted sg ens (partName # rest) =
     (case CreateEnsemblePart sg ens partName of
        Inl msg \<Rightarrow> inserted sg ens rest
      | Inr (ens', pos) \<Rightarrow> inserted sg ens' rest)"

text \<open>
  The first \<open>k\<close> characters of the name of part \<open>i\<close> are shared by no other part of
  the store; and \<open>k\<close> is the smallest number of characters, at least one, for which
  this holds.
\<close>

definition unique_at :: "EnsemblePart list \<Rightarrow> nat \<Rightarrow> nat \<Rightarrow> bool" where
  "unique_at ps i k =
     (\<forall>j \<in> set [0..<length ps]. j \<noteq> i \<longrightarrow> take k (name (ps ! j)) \<noteq> take k (name (ps ! i)))"

definition smallest_unique :: "EnsemblePart list \<Rightarrow> nat \<Rightarrow> nat \<Rightarrow> bool" where
  "smallest_unique ps i k =
     (1 \<le> k \<and> unique_at ps i k \<and> (\<forall>k' \<in> set [1..<k]. \<not> unique_at ps i k'))"

text \<open>
  The width \<^verbatim>\<open>ComputeMinChars\<close> arrives at for position \<open>i\<close> of a list of names,
  before it is cut down to the length of the name: one more than the longest run shared
  with a neighbour.
\<close>

definition neighbour_width :: "string list \<Rightarrow> nat \<Rightarrow> int" where
  "neighbour_width ns i =
     max (if 1 \<le> i then common_run (ns ! i) (ns ! (i - 1)) else 1)
         (if i + 1 < length ns then common_run (ns ! i) (ns ! (i + 1)) else 1)"

definition widths_fresh :: "EnsemblePart list \<Rightarrow> bool" where
  "widths_fresh ps =
     (\<forall>i \<in> set [0..<length ps].
        minChars (ps ! i) = min (int (length (name (ps ! i)))) (neighbour_width (map name ps) i))"

text \<open>
  What one call of \<^verbatim>\<open>ComputeMinChars\<close> does to the list of parts: the part at the
  position gets the width of its name among the names, and a position outside the list
  changes nothing.
\<close>

definition width_of :: "string list \<Rightarrow> nat \<Rightarrow> int" where
  "width_of ns i = min (int (length (ns ! i))) (neighbour_width ns i)"

definition refresh :: "EnsemblePart list \<Rightarrow> nat \<Rightarrow> EnsemblePart list" where
  "refresh ps i = ps[i := (ps ! i)\<lparr>minChars := width_of (map name ps) i\<rparr>]"

definition grefresh :: "EnsemblePart list \<Rightarrow> int \<Rightarrow> EnsemblePart list" where
  "grefresh ps i = (if 0 \<le> i \<and> i < int (length ps) then refresh ps (nat i) else ps)"

text \<open>
  A small host to run the functions on examples. Its state is the list of the commands
  created so far, each with its token; a list is split at spaces; every call succeeds,
  but Tcl has nothing to say about a \<^verbatim>\<open>NULL\<close> command.
\<close>

function split_spaces :: "string \<Rightarrow> string list" where
  "split_spaces s =
     (case dropWhile (\<lambda>c. c = CHR '' '') s of
        [] \<Rightarrow> []
      | c # cs \<Rightarrow> (c # takeWhile (\<lambda>d. d \<noteq> CHR '' '') cs)
                 # split_spaces (dropWhile (\<lambda>d. d \<noteq> CHR '' '') cs))"
  by pat_completeness auto
termination
proof (relation "measure length")
  fix s :: string and c cs
  assume a: "dropWhile (\<lambda>c. c = CHR '' '') s = c # cs"
  have "length (dropWhile (\<lambda>d. d \<noteq> CHR '' '') cs) \<le> length cs"
    by (rule length_dropWhile_le)
  moreover have "length (c # cs) \<le> length s"
    unfolding a[symmetric] by (rule length_dropWhile_le)
  ultimately show "(dropWhile (\<lambda>d. d \<noteq> CHR '' '') cs, s) \<in> measure length"
    by simp
qed simp

declare split_spaces.simps [simp del]

fun join_spaces :: "string list \<Rightarrow> string" where
  "join_spaces [] = []"
| "join_spaces [x] = x"
| "join_spaces (x # y # ys) = x @ '' '' @ join_spaces (y # ys)"

fun token_of :: "(string \<times> cmd) list \<Rightarrow> string \<Rightarrow> cmd option" where
  "token_of [] nm = None"
| "token_of ((n, c) # rest) nm = (if n = nm then Some c else token_of rest nm)"

fun name_of :: "(string \<times> cmd) list \<Rightarrow> cmd \<Rightarrow> string" where
  "name_of [] c = []"
| "name_of ((n, c') # rest) c = (if c' = c then n else name_of rest c)"

definition small_Tcl :: "(string \<times> cmd) list Tcl" where
  "small_Tcl =
     \<lparr>ITCL_COMMANDS_NAMESPACE = ''::itcl::internal::commands'',
      Tcl_SplitList = (\<lambda>s. Inr (split_spaces s)),
      Tcl_Merge = join_spaces,
      Tcl_FindEnsemble = token_of,
      Tcl_FindCommand = token_of,
      Tcl_GetCommandFromObj = token_of,
      Tcl_IsEnsemble = (\<lambda>hs c. True),
      Tcl_GetCommandInfoFromToken =
        (\<lambda>hs c. case c of None \<Rightarrow> None
                | Some c' \<Rightarrow> Some \<lparr>objClientData = c', ci_deleteProc = None,
                                   ci_deleteData = None\<rparr>),
      Tcl_GetCommandName = (\<lambda>hs c. case c of None \<Rightarrow> [] | Some c' \<Rightarrow> name_of hs c'),
      Tcl_DStringAppendElement = (\<lambda>b e. if b = [] then e else b @ '' '' @ e),
      Tcl_CreateNamespace = (\<lambda>hs n. (Some n, hs)),
      Tcl_CreateEnsemble = (\<lambda>hs n. (Some (Suc (length hs)), hs @ [(n, Suc (length hs))])),
      Tcl_CreateHashEntry = (\<lambda>hs c. True),
      Tcl_SetEnsembleUnknownHandler = (\<lambda>hs c u. (True, hs)),
      Tcl_DictObjPut = (\<lambda>hs c k v. hs),
      Tcl_CreateObjCommand = (\<lambda>hs n. (Some (Suc (length hs)), hs @ [(n, Suc (length hs))])),
      Tcl_SetEnsembleMappingDict = (\<lambda>hs c. hs),
      Tcl_EvalObj = (\<lambda>st script. (0, st)),
      errorLine = (\<lambda>hs. 1),
      call_deleteProc = (\<lambda>hs f d. hs),
      ckfree_cmd = (\<lambda>hs c. hs)\<rparr>"

definition empty_interp :: "(string \<times> cmd) list interp" where
  "empty_interp =
     \<lparr>host = [], result = StringObj [], errorInfo = [], memory = (\<lambda>p. new_Ensemble 0),
      allocated = {}, next_alloc = 1, ensembles = Map.empty, subEnsembles = {},
      numEnsembles = 0, ensembleNsPtr = Some ''::itcl::internal::commands::ensembles'',
      ensInfo = None\<rparr>"


definition after_removal :: "bool \<Rightarrow> Ensemble" where
  "after_removal sg =
     (let e1 = inserted sg (new_Ensemble 1) [''aa'', ''ab'', ''x''];
          e2 = e1\<lparr>parts := (parts e1)[0 := (parts e1 ! 0)\<lparr>cmdPtr := Some 1\<rparr>]\<rparr>
      in snd (DeleteEnsemblePart sg small_Tcl [] e2 (parts e2 ! 0)))"

definition stale_example :: "bool \<Rightarrow> Ensemble" where
  "stale_example sg = inserted sg (after_removal sg) [''z'']"

text \<open>
  The usage summary of an ensemble in the words of the spec: the usage of every part in
  the order of the store, except the part named \<open>@error\<close> and the part named
  \<open>@itcl-builtin_info\<close>; the first one after two spaces, each further one on a line of
  its own; and a last line when a part named \<open>@error\<close> exists.
\<close>

definition renderPart :: "'h Tcl \<Rightarrow> 'h \<Rightarrow> Ensemble \<Rightarrow> EnsemblePart \<Rightarrow> string" where
  "renderPart T hs ens p = GetEnsemblePartUsage T hs ens p []"

definition listed_parts :: "EnsemblePart list \<Rightarrow> EnsemblePart list" where
  "listed_parts ps = filter (\<lambda>p. name p \<noteq> ''@error'' \<and> name p \<noteq> ''@itcl-builtin_info'') ps"

fun usage_lines :: "string \<Rightarrow> string list \<Rightarrow> string" where
  "usage_lines spaces [] = []"
| "usage_lines spaces (l # ls) =
     spaces @ l @ usage_lines [CHR 0x0A, CHR '' '', CHR '' ''] ls"

definition renderEnsemble :: "'h Tcl \<Rightarrow> 'h \<Rightarrow> Ensemble \<Rightarrow> string" where
  "renderEnsemble T hs ens =
     usage_lines ''  '' (map (renderPart T hs ens) (listed_parts (parts ens)))
     @ (if ''@error'' \<in> set (map name (parts ens))
        then [CHR 0x0A] @ ''...and others described on the man page'' else [])"

text \<open>
  Hosts and states for the examples: a host that cannot create a command, as Tcl when
  the interpreter is being deleted; the interpreter after the ensemble \<open>shape\<close> has
  been created at top level; and the same after the part \<open>area\<close>, and after the parts
  \<open>area\<close> and \<open>@error\<close>, have been added to it.
\<close>

definition failing_Tcl :: "(string \<times> cmd) list Tcl" where
  "failing_Tcl = small_Tcl\<lparr>Tcl_CreateObjCommand := (\<lambda>hs n. (None, hs))\<rparr>"

definition shape_interp :: "bool \<Rightarrow> (string \<times> cmd) list interp" where
  "shape_interp sg =
     (case CreateEnsemble sg small_Tcl empty_interp None ''shape'' of
        Inr (status, st) \<Rightarrow> st
      | Inl a \<Rightarrow> empty_interp)"

definition add_part ::
  "bool \<Rightarrow> (string \<times> cmd) list interp \<Rightarrow> string \<Rightarrow> (string \<times> cmd) list interp" where
  "add_part sg st partName =
     (case AddEnsemblePart sg small_Tcl st 1 partName (Some ''r'') (Some 7) (Some 8) (Some 9)
             ITCL_ENSEMBLE_CUSTOM of
        Inr (status, st', rVal) \<Rightarrow> st'
      | Inl a \<Rightarrow> st)"

definition area_interp :: "bool \<Rightarrow> (string \<times> cmd) list interp" where
  "area_interp sg = add_part sg (shape_interp sg) ''area''"

definition area_error_interp :: "bool \<Rightarrow> (string \<times> cmd) list interp" where
  "area_error_interp sg = add_part sg (area_interp sg) ''@error''"


text \<open>
  Two hosts for nested definitions. In the first, every script fails and leaves the
  parser pointing at some other ensemble. In the second, the script \<open>inner\<close> is the
  command \<^verbatim>\<open>ensemble sub body\<close> run in the parser, whose body fails in that way.
\<close>

definition spoiling_Tcl :: "(string \<times> cmd) list Tcl" where
  "spoiling_Tcl =
     small_Tcl\<lparr>Tcl_EvalObj := (\<lambda>st script. (TCL_ERROR, st\<lparr>ensInfo := Some (Some 99)\<rparr>))\<rparr>"

definition nesting_Tcl :: "bool \<Rightarrow> (string \<times> cmd) list Tcl" where
  "nesting_Tcl sg =
     small_Tcl\<lparr>Tcl_EvalObj :=
       (\<lambda>st script.
          if script = ''inner''
          then (case Itcl_EnsembleCmd sg spoiling_Tcl st True [''ensemble'', ''sub'', ''body''] of
                  Inr r \<Rightarrow> r
                | Inl a \<Rightarrow> (TCL_ERROR, st))
          else (TCL_OK, st))\<rparr>"

text \<open>Two states of an interpreter differ at most in the result.\<close>

definition same_but_result :: "'h interp \<Rightarrow> 'h interp \<Rightarrow> bool" where
  "same_but_result st st' = (st' = st\<lparr>result := result st'\<rparr>)"

text \<open>
  The value of \<^verbatim>\<open>cmp\<close> in the loop of \<^verbatim>\<open>FindEnsemblePart\<close> when the part at
  \<^verbatim>\<open>pos\<close> does not match.
\<close>

definition part_cmp :: "bool \<Rightarrow> string \<Rightarrow> string \<Rightarrow> int" where
  "part_cmp sg pn nm = (if deref sg pn = deref sg nm then strncmp pn nm (length pn)
                        else if deref sg pn < deref sg nm then -1 else 1)"

text \<open>
  What holds of every part store the functions build: the names are in order, and no
  \<^verbatim>\<open>minChars\<close> is more than the length of its name.
\<close>

definition store_ok :: "bool \<Rightarrow> EnsemblePart list \<Rightarrow> bool" where
  "store_ok sg ps = (names_sorted sg ps \<and> (\<forall>p \<in> set ps. minChars p \<le> int (length (name p))))"

text \<open>The ensemble \<open>shape\<close> with the single part \<open>@errors\<close>.\<close>

definition errors_interp :: "bool \<Rightarrow> (string \<times> cmd) list interp" where
  "errors_interp sg = add_part sg (shape_interp sg) ''@errors''"

section \<open>Names and their order\<close>

lemma strcmp_eq_0: "strcmp a b = 0 \<longleftrightarrow> a = b"
  by (induction a b rule: strcmp.induct) auto

lemma strcmp_less_0: "strcmp a b < 0 \<longleftrightarrow> a < b"
  by (induction a b rule: strcmp.induct) (auto simp: less_char_def)

lemma of_char_nat_neq: "c \<noteq> d \<Longrightarrow> \<not> (of_char c :: nat) < of_char d \<Longrightarrow> (of_char d :: nat) < of_char c"
  by (metis linorder_neqE_nat of_char_eq_iff)

lemma strcmp_gr_0: "strcmp a b > 0 \<longleftrightarrow> b < a"
  by (induction a b rule: strcmp.induct) (auto simp: less_char_def dest: of_char_nat_neq)

lemma name_less_irrefl: "\<not> name_less sg a a"
  by (simp add: name_less_def)

lemma name_less_trans: "name_less sg a b \<Longrightarrow> name_less sg b c \<Longrightarrow> name_less sg a c"
  by (auto simp: name_less_def)

lemma name_less_total: "name_less sg a b \<or> a = b \<or> name_less sg b a"
  by (auto simp: name_less_def)

lemma name_less_asym: "name_less sg a b \<Longrightarrow> \<not> name_less sg b a"
  by (auto simp: name_less_def)

lemma char_val_unsigned: "char_val False c < char_val False d \<longleftrightarrow> c < d"
  by (simp add: char_val_def less_char_def)

lemma name_less_unsigned: "name_less False a b \<longleftrightarrow> a < b"
  apply (cases a; cases b)  
  apply (auto simp: name_less_def deref_def char_val_def less_char_def)
  done

lemma names_sortedD: "names_sorted sg ps \<Longrightarrow> i < j \<Longrightarrow> j < length ps \<Longrightarrow> name_less sg (name (ps ! i)) (name (ps ! j))"
  by (auto simp: names_sorted_def sorted_wrt_iff_nth_less)

lemma loop_unfold:
  "FindEnsemblePartIndex_loop sg ps pn first last' =
     (if last' \<ge> first then
        (let pos = (first + last') div 2; nm = name (ps ! nat pos)
         in if pn = nm then (True, pos)
            else if name_less sg nm pn then FindEnsemblePartIndex_loop sg ps pn (pos + 1) last'
            else FindEnsemblePartIndex_loop sg ps pn first (pos - 1))
      else (False, first))"
  by (subst FindEnsemblePartIndex_loop.simps)
     (auto simp: Let_def strcmp_eq_0 strcmp_gr_0 name_less_def)

lemma loop_spec:
  shows "names_sorted sg ps \<Longrightarrow> 0 \<le> first \<Longrightarrow> last' < int (length ps) \<Longrightarrow> first \<le> last' + 1 \<Longrightarrow>
     (\<forall>j. int j < first \<longrightarrow> j < length ps \<longrightarrow> name_less sg (name (ps ! j)) pn) \<Longrightarrow>
     (\<forall>j. last' < int j \<longrightarrow> j < length ps \<longrightarrow> name_less sg pn (name (ps ! j))) \<Longrightarrow>
     (case FindEnsemblePartIndex_loop sg ps pn first last' of
         (True, pos) \<Rightarrow> 0 \<le> pos \<and> pos < int (length ps) \<and> name (ps ! nat pos) = pn
       | (False, pos) \<Rightarrow> 0 \<le> pos \<and> pos \<le> int (length ps) \<and>
            (\<forall>j. int j < pos \<longrightarrow> j < length ps \<longrightarrow> name_less sg (name (ps ! j)) pn) \<and>
            (\<forall>j. pos \<le> int j \<longrightarrow> j < length ps \<longrightarrow> name_less sg pn (name (ps ! j))))"
proof (induction sg ps pn first last' rule: FindEnsemblePartIndex_loop.induct)
  case (1 sg ps pn first last')
  show ?case
  proof (cases "last' \<ge> first")
    case False
    with "1.prems" show ?thesis
      by (subst loop_unfold) auto
  next
    case True
    define pos where "pos = (first + last') div 2"
    define nm where "nm = name (ps ! nat pos)"
    have posb: "first \<le> pos" "pos \<le> last'" "0 \<le> pos" "nat pos < length ps"
      using True "1.prems" by (auto simp: pos_def)
    show ?thesis
    proof (cases "pn = nm")
      case t: True
      with True posb show ?thesis
        by (subst loop_unfold) (auto simp: Let_def pos_def[symmetric] nm_def[symmetric])
    next
      case ne: False
      then have f: "\<not> (deref sg pn = deref sg nm \<and> strcmp pn nm = 0)"
        by (simp add: strcmp_eq_0)
      show ?thesis
      proof (cases "name_less sg nm pn")
        case lt: True
        then have g: "0 < (if deref sg pn = deref sg nm then strcmp pn nm
                          else if deref sg pn < deref sg nm then -1 else 1)"
          by (auto simp: name_less_def strcmp_gr_0)
        have below: "\<forall>j. int j < pos + 1 \<longrightarrow> j < length ps \<longrightarrow> name_less sg (name (ps ! j)) pn"
        proof (intro allI impI)
          fix j assume "int j < pos + 1" "j < length ps"
          then have "j = nat pos \<or> j < nat pos" using posb by auto
          then show "name_less sg (name (ps ! j)) pn"
          proof
            assume "j = nat pos" with lt show ?thesis by (simp add: nm_def)
          next
            assume "j < nat pos"
            from names_sortedD[OF "1.prems"(1) this posb(4)] lt show ?thesis
              unfolding nm_def by (rule name_less_trans)
          qed
        qed
        have IH: "case FindEnsemblePartIndex_loop sg ps pn (pos + 1) last' of
         (True, pos) \<Rightarrow> 0 \<le> pos \<and> pos < int (length ps) \<and> name (ps ! nat pos) = pn
       | (False, pos) \<Rightarrow> 0 \<le> pos \<and> pos \<le> int (length ps) \<and>
            (\<forall>j. int j < pos \<longrightarrow> j < length ps \<longrightarrow> name_less sg (name (ps ! j)) pn) \<and>
            (\<forall>j. pos \<le> int j \<longrightarrow> j < length ps \<longrightarrow> name_less sg pn (name (ps ! j)))"
          apply (rule "1.IH"(1)[OF True pos_def nm_def f refl g])
          using "1.prems" posb below by auto
        show ?thesis
          apply (subst loop_unfold)
          using True ne lt IH by (simp add: Let_def pos_def[symmetric] nm_def[symmetric])
      next
        case nlt: False
        then have lt: "name_less sg pn nm" using ne name_less_total[of sg pn nm] by auto
        have g: "\<not> 0 < (if deref sg pn = deref sg nm then strcmp pn nm
                          else if deref sg pn < deref sg nm then -1 else 1)"
          using nlt by (auto simp: name_less_def strcmp_gr_0)
        have above: "\<forall>j. pos - 1 < int j \<longrightarrow> j < length ps \<longrightarrow> name_less sg pn (name (ps ! j))"
        proof (intro allI impI)
          fix j assume "pos - 1 < int j" "j < length ps"
          then have "j = nat pos \<or> nat pos < j" using posb by auto
          then show "name_less sg pn (name (ps ! j))"
          proof
            assume "j = nat pos" with lt show ?thesis by (simp add: nm_def)
          next
            assume "nat pos < j"
            from lt names_sortedD[OF "1.prems"(1) this \<open>j < length ps\<close>] show ?thesis
              unfolding nm_def by (rule name_less_trans)
          qed
        qed
        have IH: "case FindEnsemblePartIndex_loop sg ps pn first (pos - 1) of
         (True, pos) \<Rightarrow> 0 \<le> pos \<and> pos < int (length ps) \<and> name (ps ! nat pos) = pn
       | (False, pos) \<Rightarrow> 0 \<le> pos \<and> pos \<le> int (length ps) \<and>
            (\<forall>j. int j < pos \<longrightarrow> j < length ps \<longrightarrow> name_less sg (name (ps ! j)) pn) \<and>
            (\<forall>j. pos \<le> int j \<longrightarrow> j < length ps \<longrightarrow> name_less sg pn (name (ps ! j)))"
          apply (rule "1.IH"(2)[OF True pos_def nm_def f refl g])
          using "1.prems" posb above by auto
        show ?thesis
          apply (subst loop_unfold)
          using True ne nlt IH by (simp add: Let_def pos_def[symmetric] nm_def[symmetric])
      qed
    qed
  qed
qed

section \<open>The part store stays sorted\<close>

lemma FindEnsemblePartIndex_spec:
  assumes "names_sorted sg (parts ens)"
  shows "case FindEnsemblePartIndex sg ens pn of
         (True, pos) \<Rightarrow> 0 \<le> pos \<and> pos < int (length (parts ens)) \<and> name (parts ens ! nat pos) = pn
       | (False, pos) \<Rightarrow> 0 \<le> pos \<and> pos \<le> int (length (parts ens)) \<and>
            (\<forall>j. int j < pos \<longrightarrow> j < length (parts ens) \<longrightarrow> name_less sg (name (parts ens ! j)) pn) \<and>
            (\<forall>j. pos \<le> int j \<longrightarrow> j < length (parts ens) \<longrightarrow> name_less sg pn (name (parts ens ! j)))"
  unfolding FindEnsemblePartIndex_def numParts_def
  by (rule loop_spec[OF assms]) auto

lemma FindEnsemblePartIndex_found_name:
  "FindEnsemblePartIndex_loop sg ps pn first last' = (True, pos) \<Longrightarrow>
     first \<le> pos \<and> pos \<le> last' \<and> name (ps ! nat pos) = pn"
proof (induction sg ps pn first last' rule: FindEnsemblePartIndex_loop.induct)
  case (1 sg ps pn first last')
  show ?case
  proof (cases "last' \<ge> first")
    case False
    with "1.prems" show ?thesis by (subst (asm) loop_unfold) simp
  next
    case True
    define p where "p = (first + last') div 2"
    define nm where "nm = name (ps ! nat p)"
    have pb: "first \<le> p" "p \<le> last'" using True by (auto simp: p_def)
    show ?thesis
    proof (cases "deref sg pn = deref sg nm \<and> strcmp pn nm = 0")
      case t: True
      then have "pn = nm" by (simp add: strcmp_eq_0)
      with "1.prems" True pb show ?thesis
        by (subst (asm) loop_unfold) (auto simp: Let_def p_def nm_def)
    next
      case f: False
      then have ne: "pn \<noteq> nm" by (auto simp: strcmp_eq_0)
      show ?thesis
      proof (cases "name_less sg nm pn")
        case lt: True
        then have g: "0 < (if deref sg pn = deref sg nm then strcmp pn nm
                          else if deref sg pn < deref sg nm then -1 else 1)"
          by (auto simp: name_less_def strcmp_gr_0)
        have "FindEnsemblePartIndex_loop sg ps pn (p + 1) last' = (True, pos)"
          using "1.prems" True ne lt
          by (subst (asm) loop_unfold) (simp add: Let_def p_def[symmetric] nm_def[symmetric])
        from "1.IH"(1)[OF True p_def nm_def f refl g this] pb show ?thesis by auto
      next
        case nlt: False
        have g: "\<not> 0 < (if deref sg pn = deref sg nm then strcmp pn nm
                          else if deref sg pn < deref sg nm then -1 else 1)"
          using nlt by (auto simp: name_less_def strcmp_gr_0)
        have "FindEnsemblePartIndex_loop sg ps pn first (p - 1) = (True, pos)"
          using "1.prems" True ne nlt
          by (subst (asm) loop_unfold) (simp add: Let_def p_def[symmetric] nm_def[symmetric])
        from "1.IH"(2)[OF True p_def nm_def f refl g this] pb show ?thesis by auto
      qed
    qed
  qed
qed

lemma map_name_update_minChars:
  "map name (xs[i := (xs ! i)\<lparr>minChars := m\<rparr>]) = map name xs"
proof (rule nth_equalityI)
  fix j assume "j < length (map name (xs[i := (xs ! i)\<lparr>minChars := m\<rparr>]))"
  then show "map name (xs[i := (xs ! i)\<lparr>minChars := m\<rparr>]) ! j = map name xs ! j"
    by (cases "j = i") simp_all
qed simp

lemma ComputeMinChars_names [simp]: "map name (parts (ComputeMinChars e i)) = map name (parts e)"
  by (simp add: ComputeMinChars_def Let_def map_name_update_minChars)

lemma ComputeMinChars_length [simp]: "length (parts (ComputeMinChars e i)) = length (parts e)"
  by (auto simp: ComputeMinChars_def Let_def)

lemma names_sorted_ComputeMinChars [simp]:
  "names_sorted sg (parts (ComputeMinChars e i)) = names_sorted sg (parts e)"
  by (simp add: names_sorted_def)

lemma names_sorted_insert:
  assumes "names_sorted sg ps" "p \<le> length ps"
    "\<forall>j. j < p \<longrightarrow> j < length ps \<longrightarrow> name_less sg (name (ps ! j)) n"
    "\<forall>j. p \<le> j \<longrightarrow> j < length ps \<longrightarrow> name_less sg n (name (ps ! j))"
  shows "names_sorted sg (take p ps @ [new_part n] @ drop p ps)"
proof -
  have 1: "sorted_wrt (name_less sg) (map name (take p ps))"
    using assms(1) by (simp add: names_sorted_def take_map[symmetric])
  have 2: "sorted_wrt (name_less sg) (map name (drop p ps))"
    using assms(1) by (simp add: names_sorted_def drop_map[symmetric])
  have 3: "\<forall>x\<in>set (take p ps). name_less sg (name x) n"
    using assms(2,3) by (auto simp: in_set_conv_nth)
  have 4: "\<forall>y\<in>set (drop p ps). name_less sg n (name y)"
    using assms(2,4) by (auto simp: in_set_conv_nth)
  have 5: "\<forall>x\<in>set (take p ps). \<forall>y\<in>set (drop p ps). name_less sg (name x) (name y)"
    using 3 4 name_less_trans by blast
  show ?thesis
    using 1 2 3 4 5 by (auto simp: names_sorted_def sorted_wrt_append new_part_def)
qed

lemma names_sorted_remove:
  assumes "names_sorted sg ps"
  shows "names_sorted sg (take p ps @ drop (Suc p) ps)"
proof -
  have "sorted_wrt (name_less sg) (map name (take p ps) @ map name (drop p ps))"
    using assms by (simp add: names_sorted_def flip: map_append)
  then have a: "sorted_wrt (name_less sg) (map name (take p ps))"
    and b: "sorted_wrt (name_less sg) (map name (drop p ps))"
    and c: "\<forall>x\<in>set (take p ps). \<forall>y\<in>set (drop p ps). name_less sg (name x) (name y)"
    by (auto simp: sorted_wrt_append)
  have d: "sorted_wrt (name_less sg) (map name (drop (Suc p) ps))"
    using assms by (simp add: names_sorted_def drop_map[symmetric])
  have e: "set (drop (Suc p) ps) \<subseteq> set (drop p ps)"
    by (metis set_drop_subset drop_drop plus_1_eq_Suc)
  show ?thesis using a d c e by (auto simp: names_sorted_def sorted_wrt_append)
qed

lemma CreateEnsemblePart_sorted:
  assumes "names_sorted sg (parts ens)" "CreateEnsemblePart sg ens n = Inr (ens', pos)"
  shows "names_sorted sg (parts ens')"
proof -
  obtain b p where fp: "FindEnsemblePartIndex sg ens n = (b, p)" by (cases "FindEnsemblePartIndex sg ens n")
  with assms(2) have nb: "\<not> b" by (auto simp: CreateEnsemblePart_def)
  from FindEnsemblePartIndex_spec[OF assms(1), of n] fp nb
  have sp: "0 \<le> p" "p \<le> int (length (parts ens))"
     "\<forall>j. int j < p \<longrightarrow> j < length (parts ens) \<longrightarrow> name_less sg (name (parts ens ! j)) n"
     "\<forall>j. p \<le> int j \<longrightarrow> j < length (parts ens) \<longrightarrow> name_less sg n (name (parts ens ! j))"
    by auto
  have "names_sorted sg (take (nat p) (parts ens) @ [new_part n] @ drop (nat p) (parts ens))"
    apply (rule names_sorted_insert[OF assms(1)])
    using sp by auto
  with assms(2) fp nb show ?thesis
    by (auto simp: CreateEnsemblePart_def Let_def)
qed

lemma DeleteEnsemblePart_parts:
  "parts (snd (DeleteEnsemblePart sg T hs ens p)) = parts ens \<or>
   (\<exists>i. i < length (parts ens) \<and> name (parts ens ! i) = name p \<and>
      parts (snd (DeleteEnsemblePart sg T hs ens p)) = take i (parts ens) @ drop (Suc i) (parts ens))"
proof -
  obtain b q where fp: "FindEnsemblePartIndex sg ens (name p) = (b, q)"
    by (cases "FindEnsemblePartIndex sg ens (name p)")
  show ?thesis
  proof (cases b)
    case False
    with fp show ?thesis by (auto simp: DeleteEnsemblePart_def Let_def split: option.splits)
  next
    case True
    with fp have "0 \<le> q \<and> q \<le> numParts ens - 1 \<and> name (parts ens ! nat q) = name p"
      using FindEnsemblePartIndex_found_name[of sg "parts ens" "name p" 0 "numParts ens - 1" q]
      by (simp add: FindEnsemblePartIndex_def)
    then have "nat q < length (parts ens)" "name (parts ens ! nat q) = name p"
      by (auto simp: numParts_def)
    with fp True show ?thesis
      by (auto simp: DeleteEnsemblePart_def Let_def split: option.splits)
  qed
qed

lemma DeleteEnsemblePart_sorted:
  assumes "names_sorted sg (parts ens)"
  shows "names_sorted sg (parts (snd (DeleteEnsemblePart sg T hs ens p)))"
  using DeleteEnsemblePart_parts[of sg T hs ens p] assms names_sorted_remove by auto

lemma store_step_sorted:
  "names_sorted sg (parts (snd s)) \<Longrightarrow> names_sorted sg (parts (snd (store_step sg T s op)))"
  by (cases s; cases op)
     (auto simp: DeleteEnsemblePart_sorted split: sum.splits dest: CreateEnsemblePart_sorted)



lemma names_sorted_distinct: "names_sorted sg ps \<Longrightarrow> distinct (map name ps)"
  unfolding names_sorted_def
  by (induction ps) (auto simp: name_less_irrefl)


section \<open>Abbreviation widths after insertions\<close>

lemma common_run_ge1: "1 \<le> common_run a b"
  by (induction a b rule: common_run.induct) auto

lemma common_run_sym: "common_run a b = common_run b a"
  by (induction a b rule: common_run.induct) (auto split: list.splits)

lemma take_eq_iff_common_run:
  "a \<noteq> b \<Longrightarrow> (take k a = take k b) = (int k < common_run a b)"
proof (induction a arbitrary: b k)
  case Nil
  then show ?case by (cases b; cases k) auto
next
  case (Cons c cs)
  show ?case
  proof (cases b)
    case Nil
    then show ?thesis by (cases k) auto
  next
    case b: (Cons d ds)
    show ?thesis
    proof (cases k)
      case 0
      then show ?thesis using b common_run_ge1[of cs ds] by auto
    next
      case (Suc k')
      show ?thesis
      proof (cases "c = d")
        case True
        with Cons.prems b have "cs \<noteq> ds" by simp
        from Cons.IH[OF this, of k'] True b Suc show ?thesis by simp
      next
        case False
        with b Suc show ?thesis by simp
      qed
    qed
  qed
qed

lemma between_take_std:
  fixes a b c :: string
  shows "a < b \<Longrightarrow> b < c \<Longrightarrow> take k a = take k c \<Longrightarrow> take k b = take k a"
proof (induction k arbitrary: a b c)
  case 0
  then show ?case by simp
next
  case (Suc k)
  show ?case
  proof (cases a)
    case Nil
    with Suc.prems have "c = []" by (cases c) auto
    with Suc.prems show ?thesis by simp
  next
    case (Cons x a')
    with Suc.prems obtain c' where c: "c = x # c'" "take k a' = take k c'" by (cases c) auto
    from Suc.prems Cons obtain y b' where b: "b = y # b'" by (cases b) auto
    from Suc.prems Cons b c have "x \<le> y" "y \<le> x" by (auto simp: less_imp_le)
    then have xy: "y = x" by simp
    with Suc.prems Cons b c have "a' < b'" "b' < c'" by auto
    from Suc.IH[OF this c(2)] show ?thesis using Cons b xy by simp
  qed
qed

lemma deref_Cons_same: "deref sg (x # a) = deref sg (x # b)"
  by (simp add: deref_def)

lemma between_take:
  assumes "name_less sg a b" "name_less sg b c" "take k a = take k c"
  shows "take k b = take k a"
proof (cases k)
  case 0
  then show ?thesis by simp
next
  case (Suc k')
  have ac: "name_less sg a c" using assms(1,2) by (rule name_less_trans)
  show ?thesis
  proof (cases a)
    case Nil
    with assms(3) Suc have "c = []" by (cases c) auto
    with Nil ac show ?thesis by (simp add: name_less_irrefl)
  next
    case (Cons x a')
    with assms(3) Suc obtain c' where c: "c = x # c'" by (cases c) auto
    have "deref sg a = deref sg c" using Cons c by (simp add: deref_def)
    with assms(1,2) have "a < b" "b < c" by (auto simp: name_less_def)
    then show ?thesis using assms(3) by (rule between_take_std)
  qed
qed

lemma between_common_run:
  assumes "name_less sg a b" "name_less sg b c"
  shows "common_run a c \<le> common_run a b" "common_run a c \<le> common_run b c"
proof -
  have ne: "a \<noteq> c" "a \<noteq> b" "b \<noteq> c"
    using assms name_less_trans[OF assms] by (auto simp: name_less_irrefl)
  define k where "k = nat (common_run a c - 1)"
  have k: "int k < common_run a c" "common_run a c = int k + 1"
    using common_run_ge1[of a c] by (auto simp: k_def)
  then have t: "take k a = take k c" using ne by (simp add: take_eq_iff_common_run)
  from between_take[OF assms t] have tb: "take k b = take k a" .
  then have "int k < common_run a b" using ne by (simp add: take_eq_iff_common_run[symmetric])
  with k show "common_run a c \<le> common_run a b" by simp
  from tb t have "take k b = take k c" by simp
  then have "int k < common_run b c" using ne by (simp add: take_eq_iff_common_run[symmetric])
  with k show "common_run a c \<le> common_run b c" by simp
qed

lemma width_arith:
  fixes L R mx :: int
  assumes "1 \<le> L" "1 \<le> R"
  shows "(let m0 = 1;
             m1 = (if hasL then (let mn = L in if mn > m0 then mn else m0) else m0);
             m2 = (if hasR then (let mn = R in if mn > m1 then mn else m1) else m1);
             m3 = (if m2 > mx then mx else m2)
          in m3) = min mx (max (if hasL then L else 1) (if hasR then R else 1))"
  using assms by (simp add: Let_def max_def min_def)

lemma ComputeMinChars_parts:
  "parts (ComputeMinChars e i) =
     (if 0 \<le> i \<and> i < int (length (parts e)) then refresh (parts e) (nat i) else parts e)"
proof (cases "0 \<le> i \<and> i < int (length (parts e))")
  case False
  then show ?thesis by (auto simp: ComputeMinChars_def numParts_def)
next
  case True
  then have i: "nat i < length (parts e)" by auto
  have a: "(i - 1 \<ge> 0) = (1 \<le> nat i)" "nat (i - 1) = nat i - 1"
       "(i + 1 < int (length (parts e))) = (nat i + 1 < length (parts e))" "nat (i + 1) = nat i + 1"
    using True by auto
  have n1: "nat i - 1 < length (parts e)" using i by auto
  define L where "L = common_run (name (parts e ! nat i)) (name (parts e ! (nat i - 1)))"
  define R where "R = common_run (name (parts e ! nat i)) (name (parts e ! (nat i + 1)))"
  have LR: "1 \<le> L" "1 \<le> R" by (simp_all add: L_def R_def common_run_ge1)
  have w: "width_of (map name (parts e)) (nat i) =
      min (int (length (name (parts e ! nat i))))
        (max (if 1 \<le> nat i then L else 1) (if nat i + 1 < length (parts e) then R else 1))"
    using i n1 by (simp add: width_of_def neighbour_width_def L_def R_def)
  have "parts (ComputeMinChars e i) = (parts e)[nat i := (parts e ! nat i)\<lparr>minChars :=
      (let m0 = 1;
             m1 = (if 1 \<le> nat i then (let mn = L in if mn > m0 then mn else m0) else m0);
             m2 = (if nat i + 1 < length (parts e) then (let mn = R in if mn > m1 then mn else m1) else m1);
             m3 = (if m2 > int (length (name (parts e ! nat i))) then int (length (name (parts e ! nat i))) else m2)
          in m3)\<rparr>]"
    using True unfolding ComputeMinChars_def numParts_def L_def R_def a
    by (simp add: Let_def)
  also have "\<dots> = refresh (parts e) (nat i)"
    unfolding width_arith[OF LR] refresh_def w ..
  finally show ?thesis using True by simp
qed

lemma refresh_names [simp]: "map name (refresh ps i) = map name ps"
  by (simp add: refresh_def map_name_update_minChars)

lemma refresh_length [simp]: "length (refresh ps i) = length ps"
  by (simp add: refresh_def)

lemma refresh_nth_other: "j \<noteq> i \<Longrightarrow> refresh ps i ! j = ps ! j"
  by (simp add: refresh_def)

lemma refresh_nth_same: "i < length ps \<Longrightarrow> minChars (refresh ps i ! i) = width_of (map name ps) i"
  by (simp add: refresh_def)

lemma width_of_insert_before:
  assumes "j + 1 < p" "p \<le> length ns"
  shows "width_of (take p ns @ [n] @ drop p ns) j = width_of ns j"
  using assms by (auto simp: width_of_def neighbour_width_def nth_append)

lemma width_of_insert_after:
  assumes "p + 1 < j" "j < length ns + 1" "p \<le> length ns"
  shows "width_of (take p ns @ [n] @ drop p ns) j = width_of ns (j - 1)"
proof -
  have nth: "\<And>k. p < k \<Longrightarrow> k < length ns + 1 \<Longrightarrow> (take p ns @ [n] @ drop p ns) ! k = ns ! (k - 1)"
    using assms(3) by (auto simp: nth_append nth_Cons' min_def)
  have l: "length (take p ns @ [n] @ drop p ns) = length ns + 1" using assms(3) by simp
  have "1 \<le> j" "1 \<le> j - 1" "p < j" "p < j - 1" "j - 1 < length ns + 1" using assms by auto
  then show ?thesis
    using assms nth[of j] nth[of "j - 1"] nth[of "j + 1"]
    by (auto simp: width_of_def neighbour_width_def l simp del: append.simps append_Cons)
qed

lemma ComputeMinChars_grefresh: "parts (ComputeMinChars e i) = grefresh (parts e) i"
  by (simp add: ComputeMinChars_parts grefresh_def)

lemma ComputeMinChars_other_fields:
  "ComputeMinChars e i = e\<lparr>parts := parts (ComputeMinChars e i)\<rparr>"
  by (simp add: ComputeMinChars_def Let_def)

lemma grefresh_names [simp]: "map name (grefresh ps i) = map name ps"
  by (simp add: grefresh_def)

lemma grefresh_length [simp]: "length (grefresh ps i) = length ps"
  by (simp add: grefresh_def)

lemma grefresh_minChars:
  "j < length ps \<Longrightarrow> minChars (grefresh ps i ! j) =
     (if int j = i then width_of (map name ps) j else minChars (ps ! j))"
  by (auto simp: grefresh_def refresh_nth_same refresh_nth_other)

lemma widths_fresh_iff:
  "widths_fresh ps = (\<forall>i<length ps. minChars (ps ! i) = width_of (map name ps) i)"
  by (auto simp: widths_fresh_def width_of_def)

lemma widths_fresh_insert:
  assumes wf: "widths_fresh ps" and p: "p \<le> length ps"
  shows "widths_fresh (grefresh (grefresh (grefresh (take p ps @ [new_part n] @ drop p ps) (int p)) (int p - 1)) (int p + 1))"
proof -
  define ps' where "ps' = take p ps @ [new_part n] @ drop p ps"
  define ns where "ns = map name ps"
  define ns' where "ns' = map name ps'"
  have ns': "ns' = take p ns @ [name (new_part n)] @ drop p ns"
    by (simp add: ns'_def ps'_def ns_def take_map drop_map)
  have len: "length ps' = length ps + 1" using p by (simp add: ps'_def)
  have lenn: "length ns = length ps" by (simp add: ns_def)
  have old: "\<And>i. i < length ps \<Longrightarrow> minChars (ps ! i) = width_of ns i"
    using wf by (simp add: widths_fresh_iff ns_def)
  show ?thesis
    unfolding widths_fresh_iff ps'_def[symmetric]
  proof (intro allI impI)
    fix j assume "j < length (grefresh (grefresh (grefresh ps' (int p)) (int p - 1)) (int p + 1))"
    then have j: "j < length ps + 1" by (simp add: len)
    have names: "map name (grefresh (grefresh (grefresh ps' (int p)) (int p - 1)) (int p + 1)) = ns'"
      by (simp add: ns'_def)
    have mc: "minChars (grefresh (grefresh (grefresh ps' (int p)) (int p - 1)) (int p + 1) ! j) =
       (if int j = int p + 1 \<or> int j = int p - 1 \<or> int j = int p then width_of ns' j else minChars (ps' ! j))"
      using j by (simp add: grefresh_minChars len ns'_def)
    show "minChars (grefresh (grefresh (grefresh ps' (int p)) (int p - 1)) (int p + 1) ! j) =
       width_of (map name (grefresh (grefresh (grefresh ps' (int p)) (int p - 1)) (int p + 1))) j"
    proof (cases "int j = int p + 1 \<or> int j = int p - 1 \<or> int j = int p")
      case True
      then show ?thesis unfolding names mc by simp
    next
      case False
      then consider "j + 1 < p" | "p + 1 < j" by linarith
      then show ?thesis
      proof cases
        case 1
        then have "ps' ! j = ps ! j" "j < length ps" using p by (auto simp: ps'_def nth_append)
        then have "minChars (ps' ! j) = width_of ns j" using old by simp
        also have "\<dots> = width_of ns' j"
          unfolding ns' by (rule width_of_insert_before[symmetric]) (use 1 p in \<open>simp_all add: lenn\<close>)
        finally show ?thesis unfolding names mc using False by simp
      next
        case 2
        then have "ps' ! j = ps ! (j - 1)" "j - 1 < length ps"
          using p j by (auto simp: ps'_def nth_append nth_Cons' min_def)
        then have "minChars (ps' ! j) = width_of ns (j - 1)" using old by simp
        also have "\<dots> = width_of ns' j"
          unfolding ns' by (rule width_of_insert_after[symmetric]) (use 2 p j in \<open>simp_all add: lenn\<close>)
        finally show ?thesis unfolding names mc using False by simp
      qed
    qed
  qed
qed

lemma CreateEnsemblePart_parts:
  assumes "CreateEnsemblePart sg ens n = Inr (ens', pos)"
  shows "\<exists>p. FindEnsemblePartIndex sg ens n = (False, p) \<and> pos = nat p \<and>
     parts ens' = grefresh (grefresh (grefresh (take (nat p) (parts ens) @ [new_part n] @ drop (nat p) (parts ens)) p) (p - 1)) (p + 1)"
proof -
  obtain b p where fp: "FindEnsemblePartIndex sg ens n = (b, p)" by (cases "FindEnsemblePartIndex sg ens n")
  with assms have nb: "\<not> b" by (auto simp: CreateEnsemblePart_def)
  show ?thesis
    using assms fp nb
    by (auto simp: CreateEnsemblePart_def Let_def ComputeMinChars_grefresh)
qed

lemma CreateEnsemblePart_widths_fresh:
  assumes "names_sorted sg (parts ens)" "widths_fresh (parts ens)"
     "CreateEnsemblePart sg ens n = Inr (ens', pos)"
  shows "widths_fresh (parts ens')"
proof -
  from CreateEnsemblePart_parts[OF assms(3)] obtain p where
    fp: "FindEnsemblePartIndex sg ens n = (False, p)" and
    pe: "parts ens' = grefresh (grefresh (grefresh (take (nat p) (parts ens) @ [new_part n] @ drop (nat p) (parts ens)) p) (p - 1)) (p + 1)"
    by auto
  from FindEnsemblePartIndex_spec[OF assms(1), of n] fp
  have sp: "0 \<le> p" "p \<le> int (length (parts ens))" by auto
  then have "nat p \<le> length (parts ens)" "int (nat p) = p" by auto
  from widths_fresh_insert[OF assms(2) this(1), of n] this(2) pe show ?thesis by simp
qed

lemma inserted_invariant:
  "names_sorted sg (parts ens) \<Longrightarrow> widths_fresh (parts ens) \<Longrightarrow>
     names_sorted sg (parts (inserted sg ens ns)) \<and> widths_fresh (parts (inserted sg ens ns))"
proof (induction ns arbitrary: ens)
  case Nil
  then show ?case by simp
next
  case (Cons n ns)
  show ?case
  proof (cases "CreateEnsemblePart sg ens n")
    case (Inl msg)
    with Cons show ?thesis by simp
  next
    case (Inr r)
    obtain ens' pos where r: "r = (ens', pos)" by (cases r)
    from Cons.prems Inr r have "names_sorted sg (parts ens')" "widths_fresh (parts ens')"
      by (auto intro: CreateEnsemblePart_sorted CreateEnsemblePart_widths_fresh)
    from Cons.IH[OF this] Inr r show ?thesis by simp
  qed
qed

lemma neighbour_width_ge1: "1 \<le> neighbour_width ns i"
  by (auto simp: neighbour_width_def common_run_ge1 max_def)

lemma common_run_le_neighbour:
  assumes s: "names_sorted sg ps" and i: "i < length ps" and j: "j < length ps" and ne: "j \<noteq> i"
  shows "common_run (name (ps ! i)) (name (ps ! j)) \<le> neighbour_width (map name ps) i"
proof (cases "j < i")
  case True
  then have i1: "1 \<le> i" "i - 1 < length ps" using i by auto
  have "common_run (name (ps ! i)) (name (ps ! j)) \<le> common_run (name (ps ! i)) (name (ps ! (i - 1)))"
  proof (cases "j = i - 1")
    case True then show ?thesis by simp
  next
    case False
    with True have lt: "j < i - 1" "i - 1 < i" by auto
    have a: "name_less sg (name (ps ! j)) (name (ps ! (i - 1)))"
      using names_sortedD[OF s lt(1) i1(2)] .
    have b: "name_less sg (name (ps ! (i - 1))) (name (ps ! i))"
      using names_sortedD[OF s lt(2) i] .
    from between_common_run(2)[OF a b] show ?thesis by (simp add: common_run_sym)
  qed
  then show ?thesis using i1 i by (simp add: neighbour_width_def)
next
  case False
  with ne have gt: "i < j" by auto
  then have i1: "i + 1 < length ps" using j by auto
  have "common_run (name (ps ! i)) (name (ps ! j)) \<le> common_run (name (ps ! i)) (name (ps ! (i + 1)))"
  proof (cases "j = i + 1")
    case True then show ?thesis by simp
  next
    case False
    with gt have lt: "i < i + 1" "i + 1 < j" by auto
    have a: "name_less sg (name (ps ! i)) (name (ps ! (i + 1)))"
      using names_sortedD[OF s lt(1) i1] .
    have b: "name_less sg (name (ps ! (i + 1))) (name (ps ! j))"
      using names_sortedD[OF s lt(2) j] .
    from between_common_run(1)[OF a b] show ?thesis .
  qed
  then show ?thesis using i1 i by (simp add: neighbour_width_def)
qed

lemma unique_at_iff:
  assumes s: "names_sorted sg ps" and i: "i < length ps" and k: "1 \<le> k"
  shows "unique_at ps i k = (neighbour_width (map name ps) i \<le> int k)"
proof -
  have d: "distinct (map name ps)" using s by (rule names_sorted_distinct)
  have ne: "\<And>j. j < length ps \<Longrightarrow> j \<noteq> i \<Longrightarrow> name (ps ! j) \<noteq> name (ps ! i)"
    using d i by (auto simp: distinct_conv_nth)
  have u: "unique_at ps i k = (\<forall>j<length ps. j \<noteq> i \<longrightarrow> common_run (name (ps ! i)) (name (ps ! j)) \<le> int k)"
    unfolding unique_at_def
    using ne by (auto simp: take_eq_iff_common_run common_run_sym not_less)
  show ?thesis
  proof
    assume "unique_at ps i k"
    then have h: "\<And>j. j < length ps \<Longrightarrow> j \<noteq> i \<Longrightarrow> common_run (name (ps ! i)) (name (ps ! j)) \<le> int k"
      by (simp add: u)
    have "1 \<le> i \<Longrightarrow> common_run (name (ps ! i)) (name (ps ! (i - 1))) \<le> int k"
      using h[of "i - 1"] i by auto
    moreover have "i + 1 < length ps \<Longrightarrow> common_run (name (ps ! i)) (name (ps ! (i + 1))) \<le> int k"
      using h[of "i + 1"] by auto
    ultimately show "neighbour_width (map name ps) i \<le> int k"
      using k i by (auto simp: neighbour_width_def)
  next
    assume w: "neighbour_width (map name ps) i \<le> int k"
    show "unique_at ps i k"
      unfolding u using common_run_le_neighbour[OF s i] w by fastforce
  qed
qed

lemma smallest_unique_neighbour_width:
  assumes s: "names_sorted sg ps" and i: "i < length ps"
  shows "smallest_unique ps i (nat (neighbour_width (map name ps) i))"
proof -
  define W where "W = neighbour_width (map name ps) i"
  have W: "1 \<le> W" by (simp add: W_def neighbour_width_ge1)
  have 1: "unique_at ps i (nat W)"
    using unique_at_iff[OF s i, of "nat W"] W by (simp add: W_def)
  have 2: "\<forall>k' \<in> set [1..<nat W]. \<not> unique_at ps i k'"
  proof
    fix k' assume "k' \<in> set [1..<nat W]"
    then have "1 \<le> k'" "int k' < W" by auto
    then show "\<not> unique_at ps i k'" using unique_at_iff[OF s i, of k'] by (simp add: W_def)
  qed
  show ?thesis using W 1 2 by (simp add: smallest_unique_def W_def)
qed


text \<open>
  C2, as amended. In a part store built by insertions alone, from the empty store of a
  new ensemble, every part has as its \<^verbatim>\<open>minChars\<close> the smaller of the length of its name
  and the smallest \<open>k \<ge> 1\<close> such that no other part shares the first \<open>k\<close> characters of
  its name.
\<close>

theorem minChars_after_insertions:
  assumes "ps = parts (inserted sg (ens\<lparr>parts := []\<rparr>) names)" "i < length ps"
  shows "\<exists>k. smallest_unique ps i k
             \<and> minChars (ps ! i) = min (int (length (name (ps ! i)))) (int k)"
proof -
  have inv: "names_sorted sg ps" "widths_fresh ps"
    unfolding assms(1)
    using inserted_invariant[of sg "ens\<lparr>parts := []\<rparr>" names]
    by (simp_all add: names_sorted_def widths_fresh_def)
  define W where "W = neighbour_width (map name ps) i"
  have W: "1 \<le> W" by (simp add: W_def neighbour_width_ge1)
  have "smallest_unique ps i (nat W)"
    unfolding W_def using inv(1) assms(2) by (rule smallest_unique_neighbour_width)
  moreover have "minChars (ps ! i) = min (int (length (name (ps ! i)))) (int (nat W))"
    using inv(2) assms(2) W by (simp add: widths_fresh_iff width_of_def W_def)
  ultimately show ?thesis by blast
qed

theorem minChars_after_insertions_witness:
  "(0::nat) < length (parts (inserted True ((new_Ensemble 1)\<lparr>parts := []\<rparr>)
                               [''get'', ''getall'', ''set'']))
   \<and> (\<exists>k. smallest_unique (parts (inserted True ((new_Ensemble 1)\<lparr>parts := []\<rparr>)
                                      [''get'', ''getall'', ''set''])) 0 k
          \<and> minChars (parts (inserted True ((new_Ensemble 1)\<lparr>parts := []\<rparr>)
                                 [''get'', ''getall'', ''set'']) ! 0)
              = min (int (length (name (parts (inserted True ((new_Ensemble 1)\<lparr>parts := []\<rparr>)
                                                 [''get'', ''getall'', ''set'']) ! 0))))
                    (int k))"
proof -
  have l: "(0::nat) < length (parts (inserted True ((new_Ensemble 1)\<lparr>parts := []\<rparr>)
                                       [''get'', ''getall'', ''set'']))"
    by code_simp
  from minChars_after_insertions[OF refl l] l show ?thesis by blast
qed

text \<open>
  C2 as it is stated fails twice. With \<open>get\<close> and \<open>getall\<close> inserted, \<open>get\<close> has
  \<^verbatim>\<open>minChars\<close> 3, the length of its name, and \<open>getall\<close> shares these three characters.
  And once a part has been removed, a later insertion elsewhere leaves a width too long:
  in the second store \<open>ab\<close> keeps the 2 it needed beside \<open>aa\<close>, while its first
  character alone is shared by no other part.
\<close>

theorem minChars_smallest_counterexample:
  "\<not> smallest_unique (parts (inserted True (new_Ensemble 1) [''get'', ''getall''])) 0
       (nat (minChars (parts (inserted True (new_Ensemble 1) [''get'', ''getall'']) ! 0)))
   \<and> \<not> smallest_unique (parts (stale_example True)) 0
         (nat (minChars (parts (stale_example True) ! 0)))"
  by code_simp

section \<open>The store of \<open>get\<close>, \<open>getall\<close> and \<open>set\<close>\<close>








section \<open>Removal leaves the widths alone\<close>

text \<open>
  C4. \<^verbatim>\<open>DeleteEnsemblePart\<close> either leaves the list of parts as it is or takes out one
  part, which has the name of the part to delete. Every part that remains is the record
  it was, so its \<^verbatim>\<open>minChars\<close> is what it was before the removal.
\<close>

theorem DeleteEnsemblePart_keeps_minChars:
  "(parts (snd (DeleteEnsemblePart sg T hs ens ensPart)) = parts ens
    \<or> (\<exists>i. i < length (parts ens) \<and> name (parts ens ! i) = name ensPart
           \<and> parts (snd (DeleteEnsemblePart sg T hs ens ensPart))
              = take i (parts ens) @ drop (Suc i) (parts ens)))
   \<and> set (parts (snd (DeleteEnsemblePart sg T hs ens ensPart))) \<subseteq> set (parts ens)"
proof -
  have a: "parts (snd (DeleteEnsemblePart sg T hs ens ensPart)) = parts ens
    \<or> (\<exists>i. i < length (parts ens) \<and> name (parts ens ! i) = name ensPart
           \<and> parts (snd (DeleteEnsemblePart sg T hs ens ensPart))
              = take i (parts ens) @ drop (Suc i) (parts ens))"
    by (rule DeleteEnsemblePart_parts)
  then have "set (parts (snd (DeleteEnsemblePart sg T hs ens ensPart))) \<subseteq> set (parts ens)"
    by (auto dest: in_set_takeD in_set_dropD)
  with a show ?thesis by simp
qed

text \<open>
  The removal of \<open>aa\<close> from the store of \<open>aa\<close>, \<open>ab\<close> and \<open>x\<close>: \<open>ab\<close> keeps the width 2
  it had beside \<open>aa\<close>.
\<close>

theorem DeleteEnsemblePart_keeps_minChars_witness:
  "map name (parts (after_removal True)) = [''ab'', ''x'']
   \<and> map minChars (parts (after_removal True)) = [2, 1]
   \<and> set (parts (after_removal True))
       \<subseteq> set ((parts (inserted True (new_Ensemble 1) [''aa'', ''ab'', ''x'']))
                  [0 := (parts (inserted True (new_Ensemble 1) [''aa'', ''ab'', ''x'']) ! 0)
                          \<lparr>cmdPtr := Some 1\<rparr>])"
proof -
  have a: "map name (parts (after_removal True)) = [''ab'', ''x'']"
    by code_simp
  have b: "map minChars (parts (after_removal True)) = [2, 1]"
    by code_simp
  define e1 where "e1 = inserted True (new_Ensemble 1) [''aa'', ''ab'', ''x'']"
  define e2 where "e2 = e1\<lparr>parts := (parts e1)[0 := (parts e1 ! 0)\<lparr>cmdPtr := Some 1\<rparr>]\<rparr>"
  have c: "after_removal True = snd (DeleteEnsemblePart True small_Tcl [] e2 (parts e2 ! 0))"
    by (simp add: after_removal_def e1_def e2_def Let_def)
  have "set (parts (after_removal True)) \<subseteq> set (parts e2)"
    unfolding c using DeleteEnsemblePart_keeps_minChars[of True small_Tcl "[]" e2 "parts e2 ! 0"]
    by simp
  with a b show ?thesis by (simp add: e2_def e1_def)
qed

section \<open>A failed installation leaves the new part behind\<close>

lemma shape_interp_facts:
  "ensembles (shape_interp sg) (Some 1) = Some 1
   \<and> parts (memory (shape_interp sg) 1) = []
   \<and> cmd (memory (shape_interp sg) 1) = Some 1
   \<and> 1 \<in> allocated (shape_interp sg)"
  by (cases sg) (simp_all only: shape_interp_def, code_simp+)

lemma AddEnsemblePart_duplicate:
  "CreateEnsemblePart sg (memory st ensData) partName = Inl msg \<Longrightarrow>
     AddEnsemblePart sg T st ensData partName usageInfo op cd dp fl
       = Inr (TCL_ERROR, append_result T st msg, None)"
  by (simp add: AddEnsemblePart_def)

text \<open>
  C5, where the code departs from it. The ensemble \<open>shape\<close> has no part. Adding the part
  \<open>area\<close> on a host that cannot create the command returns \<^verbatim>\<open>TCL_ERROR\<close>, and the
  store of \<open>shape\<close> then holds \<open>area\<close>: the early \<^verbatim>\<open>return TCL_ERROR\<close> after
  \<^verbatim>\<open>Tcl_CreateObjCommand\<close> takes nothing back. (A name that is already there is refused
  before anything is changed.)
\<close>

theorem AddEnsemblePart_install_failure:
  "parts (memory (shape_interp sg) 1) = []
   \<and> (case AddEnsemblePart sg failing_Tcl (shape_interp sg) 1 ''area'' (Some ''r'') (Some 7)
              (Some 8) (Some 9) ITCL_ENSEMBLE_CUSTOM of
         Inr (status, st, rVal) \<Rightarrow>
           status = TCL_ERROR \<and> map name (parts (memory st 1)) = [''area'']
       | Inl a \<Rightarrow> False)"
proof -
  have "case AddEnsemblePart sg failing_Tcl (shape_interp sg) 1 ''area'' (Some ''r'') (Some 7)
              (Some 8) (Some 9) ITCL_ENSEMBLE_CUSTOM of
         Inr (status, st, rVal) \<Rightarrow>
           status = TCL_ERROR \<and> map name (parts (memory st 1)) = [''area'']
       | Inl a \<Rightarrow> False"
    by (cases sg) (simp_all only: shape_interp_def, code_simp+)
  then show ?thesis using shape_interp_facts[of sg] by simp
qed

section \<open>Deleting an ensemble\<close>





section \<open>The parser keeps its ensemble\<close>

lemma current_ensData_append [simp]: "current_ensData (append_result T st msg) = current_ensData st"
  by (simp add: current_ensData_def append_result_def)

lemma current_ensData_set [simp]: "current_ensData (set_result st obj) = current_ensData st"
  by (simp add: current_ensData_def set_result_def)

lemma current_ensData_not_an_ensemble [simp]:
  "current_ensData (not_an_ensemble T st kind nm) = current_ensData st"
  by (simp add: not_an_ensemble_def)

lemma current_ensData_GetEnsembleParser [simp]:
  "current_ensData (GetEnsembleParser T st) = current_ensData st"
  by (simp add: GetEnsembleParser_def current_ensData_def Let_def split: option.splits)

lemma current_ensData_eval:
  "current_ensData (snd (Itcl_EnsembleCmd_eval T st objv ensData)) = current_ensData st"
  by (simp add: Itcl_EnsembleCmd_eval_def Let_def current_ensData_def split: prod.splits)

lemma current_ensData_eval':
  "Itcl_EnsembleCmd_eval T st objv ensData = (status, st') \<Longrightarrow> current_ensData st' = current_ensData st"
  using current_ensData_eval[of T st objv ensData] by simp

lemma DeleteEnsemble_ensInfo:
  "DeleteEnsemble sg T st p = Some st' \<Longrightarrow> current_ensData st' = current_ensData st"
  by (auto simp: DeleteEnsemble_def current_ensData_def split: option.splits)

lemma CreateEnsemble_ensInfo:
  "CreateEnsemble sg T st par n = Inr (status, st') \<Longrightarrow> current_ensData st' = current_ensData st"
  unfolding CreateEnsemble_def Let_def
  by (auto simp: current_ensData_def append_result_def split: option.splits sum.splits prod.splits if_splits
        dest!: DeleteEnsemble_ensInfo)


text \<open>
  C8. Whenever \<^verbatim>\<open>Itcl_EnsembleCmd\<close> returns, with whatever status, the field
  \<^verbatim>\<open>ensData\<close> of the parser is what it was before the call (\<^verbatim>\<open>NULL\<close> when the call
  itself created the parser). The evaluation of the body is any function of the state
  and may itself run \<^verbatim>\<open>ensemble\<close> commands, so definitions may nest to any depth.
\<close>

theorem Itcl_EnsembleCmd_restores_ensData:
  "case Itcl_EnsembleCmd sg T st clientData' objv of
     Inr (status, st') \<Rightarrow> current_ensData st' = current_ensData st
   | Inl a \<Rightarrow> True"
proof (cases objv)
  case Nil
  then show ?thesis by (simp add: Itcl_EnsembleCmd_def)
next
  case (Cons a0 r1)
  show ?thesis
  proof (cases r1)
    case Nil
    with Cons show ?thesis by (simp add: Itcl_EnsembleCmd_def)
  next
    case c2: (Cons ensName args)
    define st1 where "st1 = (if clientData' then st else GetEnsembleParser T st)"
    have s1: "current_ensData st1 = current_ensData st" by (simp add: st1_def)
    show ?thesis
    proof (cases "current_ensData st1")
      case None
      then show ?thesis
        using s1 Cons c2 unfolding Itcl_EnsembleCmd_def st1_def[symmetric]
        by (auto simp: Let_def split: option.splits sum.splits prod.splits
            dest!: current_ensData_eval' CreateEnsemble_ensInfo)
    next
      case (Some ensData)
      then show ?thesis
        using s1 Cons c2 unfolding Itcl_EnsembleCmd_def st1_def[symmetric]
        by (auto simp: Let_def split: option.splits sum.splits prod.splits
            dest!: current_ensData_eval' CreateEnsemble_ensInfo)
    qed
  qed
qed

text \<open>
  A nested definition whose inner body fails and leaves the parser pointing elsewhere:
  the outer command returns the error and the parser has no ensemble, as before.
\<close>

theorem Itcl_EnsembleCmd_restores_ensData_witness:
  "case Itcl_EnsembleCmd True (nesting_Tcl True) empty_interp False
          [''ensemble'', ''shape'', ''inner''] of
     Inr (status, st') \<Rightarrow> status = TCL_ERROR \<and> current_ensData st' = None
                           \<and> map name (parts (memory st' 1)) = [''sub'']
   | Inl a \<Rightarrow> False"
proof -
  have a: "case Itcl_EnsembleCmd True (nesting_Tcl True) empty_interp False
          [''ensemble'', ''shape'', ''inner''] of
     Inr (status, st') \<Rightarrow> status = TCL_ERROR \<and> map name (parts (memory st' 1)) = [''sub'']
   | Inl a \<Rightarrow> False"
    by code_simp
  have b: "current_ensData empty_interp = None"
    by code_simp
  from a b Itcl_EnsembleCmd_restores_ensData[where sg = True and T = "nesting_Tcl True"
          and st = empty_interp and clientData' = False
          and objv = "[''ensemble'', ''shape'', ''inner'']"]
  show ?thesis by (auto split: sum.splits prod.splits)
qed

section \<open>Probing lookups leave the interpreter as it was\<close>

lemma same_but_result_refl [simp]: "same_but_result st st"
  by (simp add: same_but_result_def)

lemma same_but_result_append [simp]: "same_but_result st (append_result T st msg)"
  by (simp add: same_but_result_def append_result_def)

lemma same_but_result_set [simp]: "same_but_result st (set_result st obj)"
  by (simp add: same_but_result_def set_result_def)





lemma TCL_codes [simp]: "TCL_ERROR \<noteq> TCL_OK" "TCL_OK \<noteq> TCL_ERROR"
  by (simp_all add: TCL_OK_def TCL_ERROR_def)





section \<open>The usage summary\<close>

lemma GetEnsemblePartUsage_append:
  "GetEnsemblePartUsage T hs ens p obj = obj @ renderPart T hs ens p"
  by (simp add: GetEnsemblePartUsage_def renderPart_def Let_def)

lemma is_error_name: "(starts_with_at nm \<and> strcmp nm ''@error'' = 0) = (nm = ''@error'')"
  by (auto simp: strcmp_eq_0 starts_with_at_def)

lemma is_builtin_name:
  "(starts_with_at nm \<and> strcmp nm ''@itcl-builtin_info'' = 0) = (nm = ''@itcl-builtin_info'')"
  by (auto simp: strcmp_eq_0 starts_with_at_def)

lemma GetEnsembleUsage_loop_eq:
  "GetEnsembleUsage_loop T hs ens ps obj spaces isOpenEnded =
     (obj @ usage_lines spaces (map (renderPart T hs ens) (listed_parts ps)),
      isOpenEnded \<or> ''@error'' \<in> set (map name ps))"
proof (induction ps arbitrary: obj spaces isOpenEnded)
  case Nil
  then show ?case by (simp add: listed_parts_def)
next
  case (Cons p ps)
  show ?case
    by (simp add: is_error_name is_builtin_name Cons.IH listed_parts_def
        GetEnsemblePartUsage_append)
qed

lemma GetEnsembleUsage_render:
  "GetEnsembleUsage T hs ens objPtr = objPtr @ renderEnsemble T hs ens"
  by (simp add: GetEnsembleUsage_def GetEnsembleUsage_loop_eq renderEnsemble_def)


text \<open>
  C10. The usage summary written by \<^verbatim>\<open>GetEnsembleUsage\<close> is the one the spec describes:
  after what the object held, the usage of each part in the order of the store, the first
  after two spaces and every further one on a new line, leaving out the part named
  \<open>@error\<close> and the part named \<open>@itcl-builtin_info\<close> and nothing else; and the line
  \<open>...and others described on the man page\<close> at the end when a part is named \<open>@error\<close>.
\<close>

theorem GetEnsembleUsage_is_renderEnsemble:
  "GetEnsembleUsage T hs ens objPtr = objPtr @ renderEnsemble T hs ens"
  by (fact GetEnsembleUsage_render)

lemma area_error_usage_lines:
  "renderEnsemble small_Tcl (host (area_error_interp True)) (memory (area_error_interp True) 1)
   = ''  shape area r'' @ [CHR 0x0A] @ ''...and others described on the man page''"
  by code_simp

text \<open>The summary of the ensemble \<open>shape\<close> with the parts \<open>area\<close> and \<open>@error\<close>.\<close>

theorem GetEnsembleUsage_is_renderEnsemble_witness:
  "GetEnsembleUsage small_Tcl (host (area_error_interp True)) (memory (area_error_interp True) 1)
     ''usage:''
   = ''usage:  shape area r'' @ [CHR 0x0A] @ ''...and others described on the man page''"
  using GetEnsembleUsage_is_renderEnsemble[of small_Tcl "host (area_error_interp True)"
      "memory (area_error_interp True) 1" "''usage:''"]
  by (simp only: area_error_usage_lines append_Cons append_Nil)

section \<open>Looking up a part by an abbreviation\<close>

lemma strncmp_prefix: "(strncmp pn nm (length pn) = 0) = (take (length pn) nm = pn)"
proof (induction pn arbitrary: nm)
  case Nil
  then show ?case by simp
next
  case (Cons c cs)
  then show ?case by (cases nm) auto
qed

lemma strncmp_gr_below:
  "strncmp pn nm (length pn) > 0 \<Longrightarrow> take (length pn) x = pn \<Longrightarrow> nm < x"
proof (induction pn arbitrary: nm x)
  case Nil
  then show ?case by simp
next
  case (Cons c cs)
  from Cons.prems(2) obtain xs where x: "x = c # xs" "take (length cs) xs = cs"
    by (cases x) auto
  show ?case
  proof (cases nm)
    case Nil
    then show ?thesis using x by simp
  next
    case (Cons d ds)
    show ?thesis
    proof (cases "c = d")
      case True
      with Cons.prems(1) Cons have "strncmp cs ds (length cs) > 0" by simp
      from Cons.IH[OF this x(2)] True Cons x show ?thesis by simp
    next
      case False
      with Cons.prems(1) Cons have "\<not> (of_char c :: nat) < of_char d"
        by (auto split: if_splits)
      with False have "d < c" by (auto simp: less_char_def dest: of_char_nat_neq)
      then show ?thesis using Cons x by simp
    qed
  qed
qed

lemma strncmp_less_above:
  "strncmp pn nm (length pn) < 0 \<Longrightarrow> take (length pn) x = pn \<Longrightarrow> x < nm"
proof (induction pn arbitrary: nm x)
  case Nil
  then show ?case by simp
next
  case (Cons c cs)
  from Cons.prems(2) obtain xs where x: "x = c # xs" "take (length cs) xs = cs"
    by (cases x) auto
  show ?case
  proof (cases nm)
    case Nil
    then show ?thesis using Cons.prems(1) by simp
  next
    case (Cons d ds)
    show ?thesis
    proof (cases "c = d")
      case True
      with Cons.prems(1) Cons have "strncmp cs ds (length cs) < 0" by simp
      from Cons.IH[OF this x(2)] True Cons x show ?thesis by simp
    next
      case False
      with Cons.prems(1) Cons have "(of_char c :: nat) < of_char d"
        by (auto split: if_splits)
      then have "c < d" by (simp add: less_char_def)
      then show ?thesis using Cons x by simp
    qed
  qed
qed

lemma deref_prefix: "pn \<noteq> [] \<Longrightarrow> take (length pn) x = pn \<Longrightarrow> deref sg x = deref sg pn"
  by (cases pn; cases x) (auto simp: deref_def)

lemma part_cmp_gr_below:
  assumes "pn \<noteq> []" "part_cmp sg pn nm > 0" "take (length pn) x = pn"
  shows "name_less sg nm x"
proof (cases "deref sg pn = deref sg nm")
  case True
  with assms(2) have "strncmp pn nm (length pn) > 0" by (simp add: part_cmp_def)
  from strncmp_gr_below[OF this assms(3)] True deref_prefix[OF assms(1,3), of sg]
  show ?thesis by (simp add: name_less_def)
next
  case False
  with assms(2) have "deref sg nm < deref sg pn" by (auto simp: part_cmp_def split: if_splits)
  with deref_prefix[OF assms(1,3), of sg] show ?thesis by (simp add: name_less_def)
qed

lemma part_cmp_le_above:
  assumes "pn \<noteq> []" "\<not> part_cmp sg pn nm > 0" "take (length pn) nm \<noteq> pn" "take (length pn) x = pn"
  shows "name_less sg x nm"
proof (cases "deref sg pn = deref sg nm")
  case True
  with assms(2,3) have "strncmp pn nm (length pn) < 0"
    using strncmp_prefix[of pn nm] by (simp add: part_cmp_def)
  from strncmp_less_above[OF this assms(4)] True deref_prefix[OF assms(1,4), of sg]
  show ?thesis by (simp add: name_less_def)
next
  case False
  with assms(2) have "deref sg pn < deref sg nm" by (auto simp: part_cmp_def split: if_splits)
  with deref_prefix[OF assms(1,4), of sg] show ?thesis by (simp add: name_less_def)
qed

lemma part_match_iff:
  "pn \<noteq> [] \<Longrightarrow>
     (deref sg pn = deref sg nm \<and> strncmp pn nm (length pn) = 0) = (take (length pn) nm = pn)"
  using deref_prefix[of pn nm sg] by (auto simp: strncmp_prefix)

lemma part_loop_unfold:
  "pn \<noteq> [] \<Longrightarrow> FindEnsemblePart_loop sg ps pn first last' =
     (if last' \<ge> first then
        (let pos = (first + last') div 2; nm = name (ps ! nat pos)
         in if take (length pn) nm = pn then Some pos
            else if part_cmp sg pn nm > 0 then FindEnsemblePart_loop sg ps pn (pos + 1) last'
            else FindEnsemblePart_loop sg ps pn first (pos - 1))
      else None)"
  by (subst FindEnsemblePart_loop.simps)
     (simp add: Let_def part_match_iff part_cmp_def)

lemma part_loop_none:
  "pn \<noteq> [] \<Longrightarrow> \<forall>p\<in>set ps. take (length pn) (name p) \<noteq> pn \<Longrightarrow> 0 \<le> first \<Longrightarrow>
     last' < int (length ps) \<Longrightarrow> FindEnsemblePart_loop sg ps pn first last' = None"
proof (induction sg ps pn first last' rule: FindEnsemblePart_loop.induct)
  case (1 sg ps pn first last')
  show ?case
  proof (cases "last' \<ge> first")
    case False
    then show ?thesis using "1.prems"(1) by (subst part_loop_unfold) simp_all
  next
    case True
    define pos where "pos = (first + last') div 2"
    define nm where "nm = name (ps ! nat pos)"
    have posb: "first \<le> pos" "pos \<le> last'" "0 \<le> pos" "nat pos < length ps"
      using True "1.prems" by (auto simp: pos_def)
    have nomatch: "take (length pn) nm \<noteq> pn"
      using "1.prems"(2) posb(4) by (auto simp: nm_def)
    then have f: "\<not> (deref sg pn = deref sg nm \<and> strncmp pn nm (length pn) = 0)"
      using "1.prems"(1) by (simp add: part_match_iff)
    show ?thesis
    proof (cases "part_cmp sg pn nm > 0")
      case g: True
      then have g': "0 < (if deref sg pn = deref sg nm then strncmp pn nm (length pn)
                          else if deref sg pn < deref sg nm then -1 else 1)"
        by (simp add: part_cmp_def)
      have "FindEnsemblePart_loop sg ps pn (pos + 1) last' = None"
        by (rule "1.IH"(1)[OF True pos_def nm_def refl f refl g' "1.prems"(1,2)])
           (use posb "1.prems" in auto)
      then show ?thesis
        using True nomatch g "1.prems"(1)
        by (subst part_loop_unfold) (simp_all add: Let_def pos_def[symmetric] nm_def[symmetric])
    next
      case g: False
      then have g': "\<not> 0 < (if deref sg pn = deref sg nm then strncmp pn nm (length pn)
                          else if deref sg pn < deref sg nm then -1 else 1)"
        by (simp add: part_cmp_def)
      have "FindEnsemblePart_loop sg ps pn first (pos - 1) = None"
        by (rule "1.IH"(2)[OF True pos_def nm_def refl f refl g' "1.prems"(1,2)])
           (use posb "1.prems" in auto)
      then show ?thesis
        using True nomatch g "1.prems"(1)
        by (subst part_loop_unfold) (simp_all add: Let_def pos_def[symmetric] nm_def[symmetric])
    qed
  qed
qed

lemma part_loop_some:
  "pn \<noteq> [] \<Longrightarrow> names_sorted sg ps \<Longrightarrow> 0 \<le> first \<Longrightarrow> last' < int (length ps) \<Longrightarrow>
     first \<le> int m \<Longrightarrow> int m \<le> last' \<Longrightarrow> take (length pn) (name (ps ! m)) = pn \<Longrightarrow>
     \<exists>pos. FindEnsemblePart_loop sg ps pn first last' = Some pos \<and> first \<le> pos \<and> pos \<le> last'
          \<and> take (length pn) (name (ps ! nat pos)) = pn"
proof (induction sg ps pn first last' rule: FindEnsemblePart_loop.induct)
  case (1 sg ps pn first last')
  have True: "last' \<ge> first" using "1.prems" by simp
  define pos where "pos = (first + last') div 2"
  define nm where "nm = name (ps ! nat pos)"
  have posb: "first \<le> pos" "pos \<le> last'" "0 \<le> pos" "nat pos < length ps"
    using True "1.prems" by (auto simp: pos_def)
  have m: "m < length ps" using "1.prems" by auto
  show ?case
  proof (cases "take (length pn) nm = pn")
    case t: True
    then show ?thesis
      using True posb "1.prems"(1)
      by (subst part_loop_unfold) (auto simp: Let_def pos_def[symmetric] nm_def[symmetric])
  next
    case nomatch: False
    then have f: "\<not> (deref sg pn = deref sg nm \<and> strncmp pn nm (length pn) = 0)"
      using "1.prems"(1) by (simp add: part_match_iff)
    have mp: "m \<noteq> nat pos" using nomatch "1.prems"(7) by (auto simp: nm_def)
    show ?thesis
    proof (cases "part_cmp sg pn nm > 0")
      case g: True
      then have g': "0 < (if deref sg pn = deref sg nm then strncmp pn nm (length pn)
                          else if deref sg pn < deref sg nm then -1 else 1)"
        by (simp add: part_cmp_def)
      have below: "name_less sg nm (name (ps ! m))"
        using part_cmp_gr_below[OF "1.prems"(1) g "1.prems"(7)] .
      have "\<not> m < nat pos"
      proof
        assume "m < nat pos"
        from names_sortedD[OF "1.prems"(2) this posb(4)] below show False
          by (auto simp: nm_def dest: name_less_asym)
      qed
      with mp have mgt: "pos + 1 \<le> int m" using posb by auto
      have "\<exists>p. FindEnsemblePart_loop sg ps pn (pos + 1) last' = Some p \<and> pos + 1 \<le> p \<and> p \<le> last'
          \<and> take (length pn) (name (ps ! nat p)) = pn"
        by (rule "1.IH"(1)[OF True pos_def nm_def refl f refl g' "1.prems"(1,2)])
           (use posb "1.prems" mgt in auto)
      then show ?thesis
        using True nomatch g "1.prems"(1) posb
        by (subst part_loop_unfold) (auto simp: Let_def pos_def[symmetric] nm_def[symmetric])
    next
      case g: False
      then have g': "\<not> 0 < (if deref sg pn = deref sg nm then strncmp pn nm (length pn)
                          else if deref sg pn < deref sg nm then -1 else 1)"
        by (simp add: part_cmp_def)
      have above: "name_less sg (name (ps ! m)) nm"
        using part_cmp_le_above[OF "1.prems"(1) g nomatch "1.prems"(7)] .
      have "\<not> nat pos < m"
      proof
        assume "nat pos < m"
        from names_sortedD[OF "1.prems"(2) this m] above show False
          by (auto simp: nm_def dest: name_less_asym)
      qed
      with mp have mlt: "int m \<le> pos - 1" using posb by auto
      have "\<exists>p. FindEnsemblePart_loop sg ps pn first (pos - 1) = Some p \<and> first \<le> p \<and> p \<le> pos - 1
          \<and> take (length pn) (name (ps ! nat p)) = pn"
        by (rule "1.IH"(2)[OF True pos_def nm_def refl f refl g' "1.prems"(1,2)])
           (use posb "1.prems" mlt in auto)
      then show ?thesis
        using True nomatch g "1.prems"(1) posb
        by (subst part_loop_unfold) (auto simp: Let_def pos_def[symmetric] nm_def[symmetric])
    qed
  qed
qed

lemma top_most_match_spec:
  "top_most_match ps pn p \<le> p
   \<and> (\<forall>j. top_most_match ps pn p \<le> j \<and> j < p \<longrightarrow> take (length pn) (name (ps ! j)) = pn)
   \<and> (top_most_match ps pn p = 0 \<or> take (length pn) (name (ps ! (top_most_match ps pn p - 1))) \<noteq> pn)"
proof (induction p)
  case 0
  then show ?case by simp
next
  case (Suc p)
  show ?case
  proof (cases "take (length pn) (name (ps ! p)) = pn")
    case False
    then show ?thesis by (auto simp: strncmp_prefix)
  next
    case True
    then have t: "top_most_match ps pn (Suc p) = top_most_match ps pn p"
      by (simp add: strncmp_prefix)
    have "\<And>j. top_most_match ps pn p \<le> j \<Longrightarrow> j < Suc p \<Longrightarrow> take (length pn) (name (ps ! j)) = pn"
    proof -
      fix j assume a: "top_most_match ps pn p \<le> j" "j < Suc p"
      show "take (length pn) (name (ps ! j)) = pn"
      proof (cases "j = p")
        case True with \<open>take (length pn) (name (ps ! p)) = pn\<close> show ?thesis by simp
      next
        case False
        with a have "j < p" by simp
        with a(1) Suc.IH show ?thesis by blast
      qed
    qed
    with Suc.IH show ?thesis unfolding t by auto
  qed
qed

lemma prefix_not_below:
  assumes "pn \<noteq> []" "take (length pn) x = pn"
  shows "\<not> name_less sg x pn"
proof
  assume a: "name_less sg x pn"
  from deref_prefix[OF assms, of sg] a have "x < pn" by (simp add: name_less_def)
  moreover have "pn \<le> x"
  proof -
    have "x = pn @ drop (length pn) x" using assms(2) by (metis append_take_drop_id)
    then obtain r where "x = pn @ r" by blast
    then show ?thesis by (induction pn arbitrary: x) auto
  qed
  ultimately show False by simp
qed

lemma FindEnsemblePart_exact:
  assumes pn: "pn \<noteq> []" and ok: "store_ok sg (parts e)"
    and i: "i < length (parts e)" and nm: "name (parts e ! i) = pn"
  shows "\<exists>p. FindEnsemblePart sg T hs e pn = Inr (Some p) \<and> p \<in> set (parts e)
             \<and> take (length pn) (name p) = pn"
proof -
  define ps where "ps = parts e"
  have s: "names_sorted sg ps" and cap: "\<And>p. p \<in> set ps \<Longrightarrow> minChars p \<le> int (length (name p))"
    using ok by (auto simp: store_ok_def ps_def)
  have i': "i < length ps" "name (ps ! i) = pn" using i nm by (simp_all add: ps_def)
  have mi: "take (length pn) (name (ps ! i)) = pn" using i' by simp
  from part_loop_some[OF pn s, of 0 "int (length ps) - 1" i] i' mi
  obtain pos0 where p0: "FindEnsemblePart_loop sg ps pn 0 (int (length ps) - 1) = Some pos0"
    "0 \<le> pos0" "pos0 \<le> int (length ps) - 1" "take (length pn) (name (ps ! nat pos0)) = pn"
    by auto
  define q where "q = nat pos0"
  have q: "q < length ps" "take (length pn) (name (ps ! q)) = pn" using p0 by (auto simp: q_def)
  show ?thesis
  proof (cases "int (length pn) < minChars (ps ! q)")
    case False
    then have "FindEnsemblePart sg T hs e pn = Inr (Some (ps ! q))"
      using p0(1) by (simp add: FindEnsemblePart_def Let_def numParts_def ps_def[symmetric] q_def)
    with q show ?thesis by (auto simp: ps_def)
  next
    case True
    define t where "t = top_most_match ps pn q"
    from top_most_match_spec[of ps pn q]
    have t: "t \<le> q" "\<And>j. t \<le> j \<Longrightarrow> j < q \<Longrightarrow> take (length pn) (name (ps ! j)) = pn"
      "t = 0 \<or> take (length pn) (name (ps ! (t - 1))) \<noteq> pn"
      by (auto simp: t_def)
    have iq: "i \<le> q"
    proof (rule ccontr)
      assume "\<not> i \<le> q"
      then have "q < i" by simp
      from names_sortedD[OF s this i'(1)] i'(2) prefix_not_below[OF pn q(2), of sg]
      show False by simp
    qed
    have between: "\<And>j. i \<le> j \<Longrightarrow> j \<le> q \<Longrightarrow> take (length pn) (name (ps ! j)) = pn"
    proof -
      fix j assume j: "i \<le> j" "j \<le> q"
      show "take (length pn) (name (ps ! j)) = pn"
      proof (cases "j = i \<or> j = q")
        case True
        with mi q(2) show ?thesis by auto
      next
        case False
        with j have lt: "i < j" "j < q" by auto
        have a: "name_less sg (name (ps ! i)) (name (ps ! j))"
          using names_sortedD[OF s lt(1)] lt(2) q(1) by simp
        have b: "name_less sg (name (ps ! j)) (name (ps ! q))"
          using names_sortedD[OF s lt(2) q(1)] .
        from between_take[OF a b, of "length pn"] mi q(2) show ?thesis by simp
      qed
    qed
    have before: "\<And>j. j < i \<Longrightarrow> take (length pn) (name (ps ! j)) \<noteq> pn"
    proof
      fix j assume j: "j < i" and m: "take (length pn) (name (ps ! j)) = pn"
      from names_sortedD[OF s j i'(1)] i'(2) prefix_not_below[OF pn m, of sg]
      show False by simp
    qed
    have ti: "t = i"
    proof (rule ccontr)
      assume ne: "t \<noteq> i"
      show False
      proof (cases "t < i")
        case True
        have "take (length pn) (name (ps ! t)) = pn"
        proof (cases "t < q")
          case True then show ?thesis using t(2)[of t] by simp
        next
          case False with t(1) have "t = q" by simp
          with q(2) show ?thesis by simp
        qed
        with before[OF True] show False by simp
      next
        case False
        with ne have gt: "i < t" by simp
        then have "t \<noteq> 0" "i \<le> t - 1" "t - 1 \<le> q" using t(1) by auto
        with t(3) between[of "t - 1"] show False by auto
      qed
    qed
    have "ps ! i \<in> set ps" using i'(1) by simp
    from cap[OF this] i'(2) have "\<not> int (length pn) < minChars (ps ! i)" by simp
    then have "FindEnsemblePart sg T hs e pn = Inr (Some (ps ! i))"
      using p0(1) True ti
      by (simp add: FindEnsemblePart_def Let_def numParts_def ps_def[symmetric] q_def[symmetric] t_def[symmetric])
    with i' show ?thesis by (auto simp: ps_def)
  qed
qed

lemma FindEnsemblePart_none:
  assumes "pn \<noteq> []" "\<forall>p\<in>set (parts e). take (length pn) (name p) \<noteq> pn"
  shows "FindEnsemblePart sg T hs e pn = Inr None"
proof -
  have "FindEnsemblePart_loop sg (parts e) pn 0 (numParts e - 1) = None"
    by (rule part_loop_none[OF assms]) (simp_all add: numParts_def)
  then show ?thesis by (simp add: FindEnsemblePart_def Let_def)
qed

lemma width_of_le_length: "i < length ns \<Longrightarrow> width_of ns i \<le> int (length (ns ! i))"
  by (simp add: width_of_def)

lemma cap_grefresh:
  assumes "\<forall>p \<in> set ps. minChars p \<le> int (length (name p))"
  shows "\<forall>p \<in> set (grefresh ps i). minChars p \<le> int (length (name p))"
proof (cases "0 \<le> i \<and> i < int (length ps)")
  case False
  with assms show ?thesis by (auto simp: grefresh_def)
next
  case True
  then have n: "nat i < length ps" by auto
  have "set (grefresh ps i) \<subseteq> insert ((ps ! nat i)\<lparr>minChars := width_of (map name ps) (nat i)\<rparr>) (set ps)"
    using True by (simp add: grefresh_def refresh_def set_update_subset_insert)
  moreover have "width_of (map name ps) (nat i) \<le> int (length (name (ps ! nat i)))"
    using width_of_le_length[of "nat i" "map name ps"] n by simp
  ultimately show ?thesis using assms by auto
qed

lemma CreateEnsemblePart_cap:
  assumes "\<forall>p \<in> set (parts ens). minChars p \<le> int (length (name p))"
    and "CreateEnsemblePart sg ens n = Inr (ens', pos)"
  shows "\<forall>p \<in> set (parts ens'). minChars p \<le> int (length (name p))"
proof -
  from CreateEnsemblePart_parts[OF assms(2)] obtain p where
    pe: "parts ens' = grefresh (grefresh (grefresh (take (nat p) (parts ens) @ [new_part n] @ drop (nat p) (parts ens)) p) (p - 1)) (p + 1)"
    by auto
  have "\<forall>q \<in> set (take (nat p) (parts ens) @ [new_part n] @ drop (nat p) (parts ens)). minChars q \<le> int (length (name q))"
    using assms(1) by (auto simp: new_part_def dest: in_set_takeD in_set_dropD)
  then show ?thesis unfolding pe by (intro cap_grefresh)
qed

lemma store_step_ok:
  assumes "store_ok sg (parts (snd s))"
  shows "store_ok sg (parts (snd (store_step sg T s op)))"
proof -
  have 1: "names_sorted sg (parts (snd (store_step sg T s op)))"
    using assms by (intro store_step_sorted) (simp add: store_ok_def)
  have 2: "\<forall>p \<in> set (parts (snd (store_step sg T s op))). minChars p \<le> int (length (name p))"
  proof (cases s)
    case (Pair hs ens)
    show ?thesis
    proof (cases op)
      case (Insert n)
      show ?thesis
      proof (cases "CreateEnsemblePart sg ens n")
        case (Inl msg)
        with assms Pair Insert show ?thesis by (simp add: store_ok_def)
      next
        case (Inr r)
        obtain ens' pos where r: "r = (ens', pos)" by (cases r)
        from CreateEnsemblePart_cap[OF _ Inr[unfolded r]] assms Pair
        have "\<forall>p \<in> set (parts ens'). minChars p \<le> int (length (name p))"
          by (simp add: store_ok_def)
        with Pair Insert Inr r show ?thesis by simp
      qed
    next
      case (Remove q)
      have "set (parts (snd (DeleteEnsemblePart sg T hs ens q))) \<subseteq> set (parts ens)"
        using DeleteEnsemblePart_parts[of sg T hs ens q]
        by (auto dest: in_set_takeD in_set_dropD)
      with assms Pair Remove show ?thesis by (auto simp: store_ok_def)
    qed
  qed
  from 1 2 show ?thesis by (simp add: store_ok_def)
qed

lemma store_ok_reachable:
  "store_ok sg (parts (snd (foldl (store_step sg T) (hs, ens\<lparr>parts := []\<rparr>) ops)))"
proof -
  have step: "store_ok sg (parts (snd s)) \<Longrightarrow> store_ok sg (parts (snd (foldl (store_step sg T) s ops)))" for s
    by (induction ops arbitrary: s) (auto simp: store_step_ok)
  have "store_ok sg (parts (snd (hs, ens\<lparr>parts := []\<rparr>)))"
    by (simp add: store_ok_def names_sorted_def)
  then show ?thesis by (rule step)
qed


section \<open>The handler for unknown parts\<close>

lemma area_error_interp_facts:
  "Tcl_GetCommandFromObj small_Tcl (host (area_error_interp True)) ''shape'' = Some 1
   \<and> ensembles (area_error_interp True) (Some 1) = Some 1
   \<and> store_ok True (parts (memory (area_error_interp True) 1))
   \<and> ''@error'' \<in> set (map name (parts (memory (area_error_interp True) 1)))"
  by code_simp

lemma area_interp_facts:
  "Tcl_GetCommandFromObj small_Tcl (host (area_interp True)) ''shape'' = Some 1
   \<and> ensembles (area_interp True) (Some 1) = Some 1
   \<and> store_ok True (parts (memory (area_interp True) 1))
   \<and> (\<forall>p \<in> set (parts (memory (area_interp True) 1)). take 6 (name p) \<noteq> ''@error'')"
  by code_simp

lemma area_interp_usage:
  "renderEnsemble small_Tcl (host (area_interp True)) (memory (area_interp True) 1)
   = ''  shape area r''"
  by code_simp

text \<open>
  C6, as amended. \<^verbatim>\<open>EnsembleUnknownCmd\<close> is called for an ensemble that is registered and
  whose part store is as the functions build it. With two arguments it returns
  \<^verbatim>\<open>TCL_ERROR\<close> and the message \<open>wrong # args: should be one of...\<close> followed by the usage
  summary of the ensemble. With three or more: if a part is named \<open>@error\<close>, it returns
  \<^verbatim>\<open>TCL_OK\<close> and the list of the ensemble argument, \<open>@error\<close> and the part-name argument;
  if no part has a name beginning with \<open>@error\<close>, it returns \<^verbatim>\<open>TCL_ERROR\<close> and the
  message \<open>bad option "...": should be one of...\<close> followed by the usage summary.
\<close>

theorem EnsembleUnknownCmd_cases:
  assumes "Tcl_GetCommandFromObj T (host st) a1 = Some c"
    and "ensembles st (Some c) = Some ensData"
    and "store_ok sg (parts (memory st ensData))"
  shows "EnsembleUnknownCmd sg T st [a0, a1]
           = Inr (TCL_ERROR,
                  set_result st (StringObj (''wrong # args: should be one of...'' @ [CHR 0x0A]
                                            @ renderEnsemble T (host st) (memory st ensData))))
       \<and> (''@error'' \<in> set (map name (parts (memory st ensData))) \<longrightarrow>
            EnsembleUnknownCmd sg T st (a0 # a1 # a2 # rest)
              = Inr (TCL_OK, set_result st (ListObj [a1, ''@error'', a2])))
       \<and> ((\<forall>p \<in> set (parts (memory st ensData)). take 6 (name p) \<noteq> ''@error'') \<longrightarrow>
            EnsembleUnknownCmd sg T st (a0 # a1 # a2 # rest)
              = Inr (TCL_ERROR,
                     set_result st (StringObj (''bad option \"'' @ a2 @ ''\": should be one of...''
                                               @ [CHR 0x0A]
                                               @ renderEnsemble T (host st) (memory st ensData)))))"
proof (intro conjI impI)
  show "EnsembleUnknownCmd sg T st [a0, a1]
           = Inr (TCL_ERROR,
                  set_result st (StringObj (''wrong # args: should be one of...'' @ [CHR 0x0A]
                                            @ renderEnsemble T (host st) (memory st ensData))))"
    using assms(1,2) by (simp add: EnsembleUnknownCmd_def GetEnsembleUsage_render)
next
  assume "''@error'' \<in> set (map name (parts (memory st ensData)))"
  then obtain i where i: "i < length (parts (memory st ensData))"
    "name (parts (memory st ensData) ! i) = ''@error''"
    by (auto simp: in_set_conv_nth)
  from FindEnsemblePart_exact[OF _ assms(3) i, of T "host st"]
  obtain p where "FindEnsemblePart sg T (host st) (memory st ensData) ''@error'' = Inr (Some p)"
    by auto
  then show "EnsembleUnknownCmd sg T st (a0 # a1 # a2 # rest)
              = Inr (TCL_OK, set_result st (ListObj [a1, ''@error'', a2]))"
    using assms(1,2) by (simp add: EnsembleUnknownCmd_def)
next
  assume "\<forall>p \<in> set (parts (memory st ensData)). take 6 (name p) \<noteq> ''@error''"
  then have "FindEnsemblePart sg T (host st) (memory st ensData) ''@error'' = Inr None"
    by (intro FindEnsemblePart_none) (simp_all add: eval_nat_numeral)
  then show "EnsembleUnknownCmd sg T st (a0 # a1 # a2 # rest)
              = Inr (TCL_ERROR,
                     set_result st (StringObj (''bad option \"'' @ a2 @ ''\": should be one of...''
                                               @ [CHR 0x0A]
                                               @ renderEnsemble T (host st) (memory st ensData))))"
    using assms(1,2)
    by (simp add: EnsembleUnknownCmd_def Itcl_EnsembleErrorCmd_def GetEnsembleUsage_render)
qed


text \<open>
  The ensemble \<open>shape\<close> with the parts \<open>area\<close> and \<open>@error\<close>, called without a part name
  and with the unknown part \<open>bogus\<close>; and the ensemble \<open>shape\<close> with the part \<open>area\<close>
  alone, called with \<open>bogus\<close>.
\<close>

theorem EnsembleUnknownCmd_cases_witness:
  "EnsembleUnknownCmd True small_Tcl (area_error_interp True) [''unknown'', ''shape'']
     = Inr (TCL_ERROR,
            set_result (area_error_interp True)
              (StringObj (''wrong # args: should be one of...'' @ [CHR 0x0A]
                          @ ''  shape area r'' @ [CHR 0x0A]
                          @ ''...and others described on the man page'')))
   \<and> EnsembleUnknownCmd True small_Tcl (area_error_interp True) [''unknown'', ''shape'', ''bogus'']
       = Inr (TCL_OK, set_result (area_error_interp True) (ListObj [''shape'', ''@error'', ''bogus'']))
   \<and> EnsembleUnknownCmd True small_Tcl (area_interp True) [''unknown'', ''shape'', ''bogus'']
       = Inr (TCL_ERROR,
              set_result (area_interp True)
                (StringObj (''bad option \"bogus\": should be one of...'' @ [CHR 0x0A]
                            @ ''  shape area r'')))"
proof -
  note a = area_error_interp_facts
  note b = area_interp_facts
  from a have a1: "Tcl_GetCommandFromObj small_Tcl (host (area_error_interp True)) ''shape'' = Some 1"
    and a2: "ensembles (area_error_interp True) (Some 1) = Some 1"
    and a3: "store_ok True (parts (memory (area_error_interp True) 1))"
    and a4: "''@error'' \<in> set (map name (parts (memory (area_error_interp True) 1)))"
    by simp_all
  from b have b1: "Tcl_GetCommandFromObj small_Tcl (host (area_interp True)) ''shape'' = Some 1"
    and b2: "ensembles (area_interp True) (Some 1) = Some 1"
    and b3: "store_ok True (parts (memory (area_interp True) 1))"
    and b4: "\<forall>p \<in> set (parts (memory (area_interp True) 1)). take 6 (name p) \<noteq> ''@error''"
    by simp_all
  from EnsembleUnknownCmd_cases[OF a1 a2 a3, of "''unknown''" "''bogus''" "[]"] a4
    EnsembleUnknownCmd_cases[OF b1 b2 b3, of "''unknown''" "''bogus''" "[]"] b4
  show ?thesis
    by (simp only: area_error_usage_lines area_interp_usage simp_thms append_Cons append_Nil)
qed

text \<open>
  C6 as it is stated fails where no part is named \<open>@error\<close> but one has a name that
  begins with it: \<^verbatim>\<open>FindEnsemblePart\<close> takes \<open>@error\<close> for an abbreviation of
  \<open>@errors\<close>, and the handler returns \<^verbatim>\<open>TCL_OK\<close> with the list, not the error
  \<open>bad option\<close>.
\<close>

theorem EnsembleUnknownCmd_counterexample:
  "''@error'' \<notin> set (map name (parts (memory (errors_interp True) 1)))
   \<and> Tcl_GetCommandFromObj small_Tcl (host (errors_interp True)) ''shape'' = Some 1
   \<and> ensembles (errors_interp True) (Some 1) = Some 1
   \<and> (case EnsembleUnknownCmd True small_Tcl (errors_interp True)
              [''unknown'', ''shape'', ''bogus''] of
         Inr (status, st') \<Rightarrow>
           status = TCL_OK \<and> result st' = ListObj [''shape'', ''@error'', ''bogus'']
       | Inl a \<Rightarrow> False)"
  by code_simp

end
